theory Spec2Isabelle
  imports
    Complex_Main
    "HOL-Library.Multiset"
    "HOL-Library.AList"
    "HOL-Library.List_Lexorder"
    "HOL-Library.Char_ord"
begin

section \<open>Data model (xray/models.py)\<close>

text \<open>
  The values of the open \<open>metadata\<close> and \<open>data\<close> dictionaries (\<open>dict[str, Any]\<close>) are
  integers and strings, the two kinds the callers of the repository put there
  (\<open>{"reasoning": ..., "sequence": idx}\<close>). Python orders integers among themselves and
  strings among themselves; comparing one with the other raises \<open>TypeError\<close>.
  Values of other kinds (floats with their NaN, booleans, null, lists, dictionaries) are
  not modelled; what is proved about the order of the output is stated for sequences
  that are all integers or all strings.
  A dictionary is an association list in insertion order.
\<close>

datatype pyval = PyInt int | PyStr string

type_synonym pydict = "(string \<times> pyval) list"

datatype decision_kind = Accepted | Rejected | Pending

record decision =
  candidate_id :: string
  decision_type :: decision_kind
  reason :: "string option"
  score :: "rat option"
  metadata :: "pydict option"
  timestamp :: "nat option"

record evidence =
  evidence_type :: string
  data :: pydict
  ev_timestamp :: "nat option"

record step_input =
  name :: string
  step_in :: "pydict option"
  step_out :: "pydict option"
  config :: "pydict option"
  decisions :: "decision list option"
  evidence :: "evidence list option"
  reasoning :: "string option"

datatype error =
    ValueError
  | TypeError
  | IntegrityError
  | HTTPException nat

section \<open>The sampler (xray/sampler.py)\<close>

record stats =
  input_count :: nat
  output_count :: nat
  rejection_rate :: rat
  rejection_reasons :: "(string \<times> nat) list"

record sampler =
  threshold :: int
  per_reason :: int

text \<open>\<open>DecisionSampler()\<close> with the defaults of \<open>__init__\<close>.\<close>

definition DecisionSampler :: sampler where
  "DecisionSampler = \<lparr>threshold = 500, per_reason = 50\<rparr>"

text \<open>\<open>d.reason or "unknown"\<close>: \<open>None\<close> and the empty string are both falsy.\<close>

definition reason_or_unknown :: "decision \<Rightarrow> string" where
  "reason_or_unknown d =
     (case reason d of
        None \<Rightarrow> ''unknown''
      | Some r \<Rightarrow> (if r = [] then ''unknown'' else r))"

text \<open>
  The sort key \<open>d.metadata.get("sequence", 0) if d.metadata else 0\<close>: a missing or empty
  dictionary and a missing entry all give \<open>0\<close>.
\<close>

definition sequence_key :: "decision \<Rightarrow> pyval" where
  "sequence_key d =
     (case metadata d of
        None \<Rightarrow> PyInt 0
      | Some md \<Rightarrow>
          (if md = [] then PyInt 0
           else (case map_of md ''sequence'' of None \<Rightarrow> PyInt 0 | Some v \<Rightarrow> v)))"

fun is_int :: "pyval \<Rightarrow> bool" where
  "is_int (PyInt _) = True"
| "is_int (PyStr _) = False"

fun is_str :: "pyval \<Rightarrow> bool" where
  "is_str (PyInt _) = False"
| "is_str (PyStr _) = True"

fun int_of :: "pyval \<Rightarrow> int" where
  "int_of (PyInt i) = i"
| "int_of (PyStr _) = 0"

fun str_of :: "pyval \<Rightarrow> string" where
  "str_of (PyInt _) = []"
| "str_of (PyStr s) = s"

text \<open>Python's \<open>a <= b\<close> where it is defined; unlike kinds are unordered.\<close>

fun py_le :: "pyval \<Rightarrow> pyval \<Rightarrow> bool" where
  "py_le (PyInt a) (PyInt b) = (a \<le> b)"
| "py_le (PyStr a) (PyStr b) = (a \<le> b)"
| "py_le _ _ = False"

fun py_less :: "pyval \<Rightarrow> pyval \<Rightarrow> bool" where
  "py_less (PyInt a) (PyInt b) = (a < b)"
| "py_less (PyStr a) (PyStr b) = (a < b)"
| "py_less _ _ = False"

text \<open>
  \<open>list.sort(key=...)\<close>: a stable sort by key. It succeeds when the keys are all
  integers or all strings (always so for at most one element) and raises \<open>TypeError\<close>
  when the kinds are mixed. Keys of the kinds left out of \<open>pyval\<close> are outside this
  definition: a NaN among floats compares false with everything, and the sort then
  returns without an error and out of order.
\<close>

definition sort_by_sequence :: "decision list \<Rightarrow> error + decision list" where
  "sort_by_sequence ds =
     (if list_all (\<lambda>d. is_int (sequence_key d)) ds
        then Inr (sort_key (\<lambda>d. int_of (sequence_key d)) ds)
      else if list_all (\<lambda>d. is_str (sequence_key d)) ds
        then Inr (sort_key (\<lambda>d. str_of (sequence_key d)) ds)
      else Inl TypeError)"

text \<open>
  \<open>random.sample(population, k)\<close> draws from the generator of the \<open>random\<close> module, one
  object shared by the whole process. Its state \<open>'g\<close> is passed in and returned. What is
  drawn is left to a parameter \<open>pick\<close>; \<open>ValueError\<close> for a negative or too large \<open>k\<close>
  is the library's check.
\<close>

type_synonym ('g, 'a) chooser = "'g \<Rightarrow> 'a list \<Rightarrow> nat \<Rightarrow> 'a list \<times> 'g"

definition random_sample ::
  "('g, 'a) chooser \<Rightarrow> 'g \<Rightarrow> 'a list \<Rightarrow> int \<Rightarrow> error + ('a list \<times> 'g)" where
  "random_sample pick g population k =
     (if k < 0 \<or> int (length population) < k then Inl ValueError
      else Inr (pick g population (nat k)))"

text \<open>
  The library's contract for a valid \<open>k\<close>: \<open>k\<close> elements taken from distinct positions
  of the population, in any order.
\<close>

definition chooser_ok :: "('g, 'a) chooser \<Rightarrow> bool" where
  "chooser_ok pick \<longleftrightarrow>
     (\<forall>g xs k. k \<le> length xs \<longrightarrow>
        length (fst (pick g xs k)) = k \<and> mset (fst (pick g xs k)) \<subseteq># mset xs)"

text \<open>A chooser to run the model with: the generator state is a counter.\<close>

definition rotate_chooser :: "(nat, 'a) chooser" where
  "rotate_chooser g xs k = (take k (rotate g xs), Suc g)"

text \<open>\<open>by_reason[key].append(d)\<close> on a \<open>defaultdict(list)\<close>: a new key goes last.\<close>

fun append_to_group ::
  "string \<Rightarrow> decision \<Rightarrow> (string \<times> decision list) list \<Rightarrow> (string \<times> decision list) list" where
  "append_to_group k d [] = [(k, [d])]"
| "append_to_group k d ((k', items) # rest) =
     (if k' = k then (k', items @ [d]) # rest
      else (k', items) # append_to_group k d rest)"

text \<open>The first loop of \<open>sample\<close>: one pass filling the three buckets.\<close>

fun partition_step ::
  "decision list \<times> (string \<times> decision list) list \<times> decision list \<Rightarrow> decision \<Rightarrow>
   decision list \<times> (string \<times> decision list) list \<times> decision list" where
  "partition_step (accepted, by_reason, pending) d =
     (if decision_type d = Accepted then (accepted @ [d], by_reason, pending)
      else if decision_type d = Rejected
        then (accepted, append_to_group (reason_or_unknown d) d by_reason, pending)
      else (accepted, by_reason, pending @ [d]))"

definition partition_decisions ::
  "decision list \<Rightarrow> decision list \<times> (string \<times> decision list) list \<times> decision list" where
  "partition_decisions ds = foldl partition_step ([], [], []) ds"

text \<open>
  The second loop: each group whole, or \<open>per_reason\<close> drawn from it. An exception leaves
  the shared generator where the draws so far have taken it, so an error comes with the
  generator state.
\<close>

fun sample_groups ::
  "('g, decision) chooser \<Rightarrow> int \<Rightarrow> (string \<times> decision list) list \<Rightarrow> decision list \<Rightarrow> 'g \<Rightarrow>
   (error \<times> 'g) + (decision list \<times> 'g)" where
  "sample_groups pick pr [] sampled_rejected g = Inr (sampled_rejected, g)"
| "sample_groups pick pr ((r, items) # rest) sampled_rejected g =
     (if int (length items) \<le> pr
        then sample_groups pick pr rest (sampled_rejected @ items) g
      else (case random_sample pick g items pr of
              Inl e \<Rightarrow> Inl (e, g)
            | Inr (drawn, g') \<Rightarrow> sample_groups pick pr rest (sampled_rejected @ drawn) g'))"

definition sample ::
  "('g, decision) chooser \<Rightarrow> sampler \<Rightarrow> 'g \<Rightarrow> decision list \<Rightarrow>
   (error \<times> 'g) + ((decision list \<times> bool) \<times> 'g)" where
  "sample pick self g ds =
     (if int (length ds) \<le> threshold self then Inr ((ds, False), g)
      else
        (case partition_decisions ds of
           (accepted, by_reason, pending) \<Rightarrow>
             (case sample_groups pick (per_reason self) by_reason [] g of
                Inl err \<Rightarrow> Inl err
              | Inr (sampled_rejected, g') \<Rightarrow>
                  (case sort_by_sequence (accepted @ sampled_rejected @ pending) of
                     Inl e \<Rightarrow> Inl (e, g')
                   | Inr result \<Rightarrow> Inr ((result, True), g')))))"

text \<open>\<open>reasons[r] = reasons.get(r, 0) + 1\<close> for a rejected decision.\<close>

definition count_reason :: "(string \<times> nat) list \<Rightarrow> decision \<Rightarrow> (string \<times> nat) list" where
  "count_reason reasons d =
     (if decision_type d = Rejected
        then (let r = reason_or_unknown d
              in AList.update r ((case map_of reasons r of None \<Rightarrow> 0 | Some c \<Rightarrow> c) + 1) reasons)
      else reasons)"

text \<open>
  \<open>rejected / total\<close> is Python's true division; the model keeps the exact quotient, of
  which the float is the nearest double.
\<close>

definition compute_stats :: "decision list \<Rightarrow> stats" where
  "compute_stats ds =
     (if ds = [] then
        \<lparr>input_count = 0, output_count = 0, rejection_rate = 0, rejection_reasons = []\<rparr>
      else
        (let total = length ds;
             accepted = length (filter (\<lambda>d. decision_type d = Accepted) ds);
             rejected = length (filter (\<lambda>d. decision_type d = Rejected) ds);
             reasons = foldl count_reason [] ds
         in \<lparr>input_count = total,
             output_count = accepted,
             rejection_rate = (if total \<noteq> 0 then of_nat rejected / of_nat total else 0),
             rejection_reasons = reasons\<rparr>))"

text \<open>The pydantic constructor \<open>Decision(...)\<close> with \<open>score\<close> and \<open>timestamp\<close> left out.\<close>

definition Decision :: "string \<Rightarrow> decision_kind \<Rightarrow> string option \<Rightarrow> pydict option \<Rightarrow> decision" where
  "Decision c k r md =
     \<lparr>candidate_id = c, decision_type = k, reason = r, score = None, metadata = md,
      timestamp = None\<rparr>"

subsection \<open>Notions the properties are stated with\<close>

text \<open>The rejected decisions of a list that fall into the bucket of reason \<open>r\<close>.\<close>

definition rejected_with :: "string \<Rightarrow> decision list \<Rightarrow> decision list" where
  "rejected_with r ds =
     filter (\<lambda>d. decision_type d = Rejected \<and> reason_or_unknown d = r) ds"

text \<open>
  What one round of the second loop takes from a group: a part of the group, of size
  \<open>min (length group) per_reason\<close>, the group itself when it fits.
\<close>

definition drawn_from :: "int \<Rightarrow> string \<times> decision list \<Rightarrow> decision list \<Rightarrow> bool" where
  "drawn_from pr grp p \<longleftrightarrow>
     mset p \<subseteq># mset (snd grp) \<and>
     int (length p) = min (int (length (snd grp))) pr \<and>
     (int (length (snd grp)) \<le> pr \<longrightarrow> p = snd grp)"

text \<open>The sort keys can be compared with each other: all integers or all strings.\<close>

definition sortable :: "decision list \<Rightarrow> bool" where
  "sortable ds \<longleftrightarrow>
     list_all (\<lambda>d. is_int (sequence_key d)) ds \<or> list_all (\<lambda>d. is_str (sequence_key d)) ds"

text \<open>A small sampler and a decision list to run the model on.\<close>

definition demo_sampler :: sampler where
  "demo_sampler = \<lparr>threshold = 2, per_reason = 1\<rparr>"

definition demo_decisions :: "decision list" where
  "demo_decisions =
     [Decision ''a'' Rejected (Some ''price'') None,
      Decision ''b'' Rejected (Some ''price'') None,
      Decision ''c'' Accepted None None]"

text \<open>
  The bucket of reason \<open>r\<close>, in terms of the \<open>reason\<close> field alone: the rejected
  decisions that state the non-empty reason \<open>r\<close>, and for \<open>unknown\<close> also those that
  state none (\<open>None\<close> or the empty string).
\<close>

definition in_bucket :: "string \<Rightarrow> decision \<Rightarrow> bool" where
  "in_bucket r d \<longleftrightarrow>
     decision_type d = Rejected \<and>
     (reason d = Some r \<and> r \<noteq> [] \<or>
      r = ''unknown'' \<and> (reason d = None \<or> reason d = Some []))"

text \<open>
  The sequence a decision carries, in terms of the \<open>metadata\<close> field alone: the value
  of its \<open>sequence\<close> entry, and \<open>0\<close> when there is no metadata or no such entry.
\<close>

definition metadata_sequence :: "decision \<Rightarrow> pyval" where
  "metadata_sequence d =
     (case metadata d of
        None \<Rightarrow> PyInt 0
      | Some md \<Rightarrow> (case map_of md ''sequence'' of None \<Rightarrow> PyInt 0 | Some v \<Rightarrow> v))"

text \<open>
  A list with two stated reasons, a decision without reason, a pending and an accepted
  decision, submitted out of sequence order.
\<close>

definition demo_mixed :: "decision list" where
  "demo_mixed =
     [Decision ''p'' Pending None (Some [(''sequence'', PyInt 3)]),
      Decision ''x1'' Rejected (Some ''price'') (Some [(''sequence'', PyInt 1)]),
      Decision ''x2'' Rejected (Some ''price'') (Some [(''sequence'', PyInt 4)]),
      Decision ''a'' Accepted None (Some [(''sequence'', PyInt 2)]),
      Decision ''y'' Rejected (Some ''rating'') (Some [(''sequence'', PyInt 0)]),
      Decision ''u'' Rejected None (Some [(''sequence'', PyInt 5)])]"

definition demo_mixed_sampled :: "decision list" where
  "demo_mixed_sampled =
     [Decision ''y'' Rejected (Some ''rating'') (Some [(''sequence'', PyInt 0)]),
      Decision ''x1'' Rejected (Some ''price'') (Some [(''sequence'', PyInt 1)]),
      Decision ''a'' Accepted None (Some [(''sequence'', PyInt 2)]),
      Decision ''p'' Pending None (Some [(''sequence'', PyInt 3)]),
      Decision ''u'' Rejected None (Some [(''sequence'', PyInt 5)])]"

text \<open>The sequences can be compared with each other: all integers or all strings.\<close>

definition comparable_sequences :: "decision list \<Rightarrow> bool" where
  "comparable_sequences ds \<longleftrightarrow>
     list_all (\<lambda>d. is_int (metadata_sequence d)) ds \<or>
     list_all (\<lambda>d. is_str (metadata_sequence d)) ds"

section \<open>Configuration (xray/config.py)\<close>

definition MAX_DECISIONS_PER_STEP :: nat where
  "MAX_DECISIONS_PER_STEP = 100000"

definition MAX_EVIDENCE_PER_STEP :: nat where
  "MAX_EVIDENCE_PER_STEP = 1000"

section \<open>The tables (api/db/models.py)\<close>

text \<open>
  A primary key is a \<open>uuid4\<close> string; the model takes it from a supply of fresh numbers.
  The column default \<open>default=_uuid\<close> is applied when the row is inserted, that is at
  the flush: an object that was only constructed and added to the session has
  \<open>id = None\<close>. This is why \<open>record_step\<close> flushes after \<open>db.add(step)\<close> before it
  reads \<open>step.id\<close>.
\<close>

type_synonym uuid = nat

record run_row =
  run_id :: uuid
  run_pipeline_type :: string
  run_status :: string

record step_row =
  step_id :: "uuid option"
  step_run_id :: uuid
  step_name :: string
  step_sequence_order :: nat
  step_input_data :: "pydict option"
  step_output_data :: "pydict option"
  step_config :: "pydict option"
  step_reasoning :: "string option"
  step_stats :: "stats option"
  step_started_at :: nat
  step_completed_at :: "nat option"

record decision_row =
  dec_id :: "uuid option"
  dec_step_id :: "uuid option"
  dec_candidate_id :: string
  dec_decision_type :: decision_kind
  dec_reason :: "string option"
  dec_score :: "rat option"
  dec_sequence_order :: nat
  dec_meta_data :: "pydict option"
  dec_created_at :: nat

record evidence_row =
  evi_id :: "uuid option"
  evi_decision_id :: "uuid option"
  evi_evidence_type :: string
  evi_data :: pydict
  evi_created_at :: nat

record database =
  runs :: "run_row list"
  steps :: "step_row list"
  decision_rows :: "decision_row list"
  evidence_rows :: "evidence_row list"

text \<open>
  What a request works in: the committed database, the generator of the \<open>random\<close>
  module, and the supply of fresh keys.
\<close>

record 'g world =
  db :: database
  rng :: 'g
  next_uuid :: nat

section \<open>Recording a step (api/routes/ingest.py)\<close>

record sampling_summary =
  total :: nat
  kept :: nat
  sampled :: bool

record record_step_response =
  resp_step_id :: uuid
  resp_stats :: "stats option"
  resp_sampling_summary :: "sampling_summary option"

text \<open>\<open>xs or []\<close> for an optional list or dictionary.\<close>

definition or_empty :: "'a list option \<Rightarrow> 'a list" where
  "or_empty xs = (case xs of None \<Rightarrow> [] | Some ys \<Rightarrow> ys)"

text \<open>\<open>md.setdefault(k, v)\<close>: an entry that is there stays.\<close>

definition setdefault :: "string \<Rightarrow> pyval \<Rightarrow> pydict \<Rightarrow> pydict" where
  "setdefault k v md = (if map_of md k = None then md @ [(k, v)] else md)"

text \<open>The loop building \<open>normalized\<close>.\<close>

definition normalize_decision :: "nat \<Rightarrow> decision \<Rightarrow> decision" where
  "normalize_decision idx d =
     \<lparr>candidate_id = candidate_id d,
      decision_type = decision_type d,
      reason = reason d,
      score = score d,
      metadata = Some (setdefault ''sequence'' (PyInt (int idx)) (or_empty (metadata d))),
      timestamp = timestamp d\<rparr>"

definition normalize :: "decision list \<Rightarrow> decision list" where
  "normalize ds = map (\<lambda>(idx, d). normalize_decision idx d) (enumerate 0 ds)"

text \<open>The two guardrails at the head of \<open>record_step\<close>.\<close>

definition guardrails :: "step_input \<Rightarrow> error option" where
  "guardrails si =
     (if or_empty (decisions si) \<noteq> [] \<and> length (or_empty (decisions si)) > MAX_DECISIONS_PER_STEP
        then Some (HTTPException 413)
      else if or_empty (evidence si) \<noteq> [] \<and> length (or_empty (evidence si)) > MAX_EVIDENCE_PER_STEP
        then Some (HTTPException 413)
      else None)"

text \<open>Statistics on the whole normalized list, then the sampler of the module.\<close>

definition stats_and_sample ::
  "('g, decision) chooser \<Rightarrow> 'g \<Rightarrow> step_input \<Rightarrow>
   (error \<times> 'g) + (stats option \<times> decision list \<times> bool \<times> 'g)" where
  "stats_and_sample pick g si =
     (if or_empty (decisions si) \<noteq> [] then
        (let normalized = normalize (or_empty (decisions si));
             computed_stats = compute_stats normalized
         in case sample pick DecisionSampler g normalized of
              Inl err \<Rightarrow> Inl err
            | Inr ((sampled_sdk_decisions, was_sampled), g') \<Rightarrow>
                Inr (Some computed_stats, sampled_sdk_decisions, was_sampled, g'))
      else Inr (None, [], False, g))"

text \<open>\<open>Decision(step_id=step.id, ...)\<close>: constructed and added, not yet inserted.\<close>

definition new_decision_row :: "uuid option \<Rightarrow> nat \<Rightarrow> nat \<Rightarrow> decision \<Rightarrow> decision_row" where
  "new_decision_row sid now idx d =
     \<lparr>dec_id = None,
      dec_step_id = sid,
      dec_candidate_id = candidate_id d,
      dec_decision_type = decision_type d,
      dec_reason = reason d,
      dec_score = score d,
      dec_sequence_order = idx,
      dec_meta_data = metadata d,
      dec_created_at = (case timestamp d of None \<Rightarrow> now | Some t \<Rightarrow> t)\<rparr>"

text \<open>\<open>Evidence(decision_id=decision.id, ...)\<close> for a pair of the \<open>zip\<close>.\<close>

definition new_evidence_row :: "nat \<Rightarrow> evidence \<Rightarrow> decision_row \<Rightarrow> evidence_row" where
  "new_evidence_row now ev decision =
     \<lparr>evi_id = None,
      evi_decision_id = dec_id decision,
      evi_evidence_type = evidence_type ev,
      evi_data = data ev,
      evi_created_at = (case ev_timestamp ev of None \<Rightarrow> now | Some t \<Rightarrow> t)\<rparr>"

text \<open>
  The flush of the pending rows at \<open>commit\<close>: decisions first (evidence refers to
  them), each row without a key taking a fresh one; \<open>evidence.decision_id\<close> is
  \<open>nullable=False\<close>, so a row without it is refused.
\<close>

definition insert_decisions :: "nat \<Rightarrow> decision_row list \<Rightarrow> decision_row list \<times> nat" where
  "insert_decisions u rows =
     (map (\<lambda>(i, r). r\<lparr>dec_id := Some (u + i)\<rparr>) (enumerate 0 rows), u + length rows)"

definition insert_evidence :: "nat \<Rightarrow> evidence_row list \<Rightarrow> error + (evidence_row list \<times> nat)" where
  "insert_evidence u rows =
     (if list_ex (\<lambda>r. evi_decision_id r = None) rows then Inl IntegrityError
      else Inr (map (\<lambda>(i, r). r\<lparr>evi_id := Some (u + i)\<rparr>) (enumerate 0 rows), u + length rows))"

text \<open>
  \<open>record_step\<close>. An exception leaves the request without a commit, and the session is
  closed: the database is the one the request started with. The generator and the key
  supply are not part of the transaction.
\<close>

definition record_step ::
  "('g, decision) chooser \<Rightarrow> nat \<Rightarrow> 'g world \<Rightarrow> uuid \<Rightarrow> step_input \<Rightarrow>
   (error + record_step_response) \<times> 'g world" where
  "record_step pick now w rid si =
     (case guardrails si of
        Some e \<Rightarrow> (Inl e, w)
      | None \<Rightarrow>
        if rid \<notin> set (map run_id (runs (db w))) then (Inl (HTTPException 404), w)
        else
          (let seq = length (filter (\<lambda>s. step_run_id s = rid) (steps (db w)))
           in case stats_and_sample pick (rng w) si of
                Inl (e, g') \<Rightarrow> (Inl e, w\<lparr>rng := g'\<rparr>)
              | Inr (stats, sampled_sdk_decisions, was_sampled, g') \<Rightarrow>
                 (let sid = next_uuid w;
                      step = \<lparr>step_id = Some sid, step_run_id = rid, step_name = name si,
                              step_sequence_order = seq, step_input_data = step_in si,
                              step_output_data = step_out si, step_config = config si,
                              step_reasoning = reasoning si, step_stats = stats,
                              step_started_at = now, step_completed_at = Some now\<rparr>;
                      w1 = w\<lparr>rng := g', next_uuid := Suc sid\<rparr>;
                      decisions_to_store = sampled_sdk_decisions;
                      sampling_summary =
                        (if or_empty (decisions si) \<noteq> []
                           then Some \<lparr>total = length (or_empty (decisions si)),
                                      kept = length decisions_to_store,
                                      sampled = was_sampled\<rparr>
                         else None);
                      created_decisions =
                        (if or_empty (decisions si) \<noteq> []
                           then map (\<lambda>(idx, d). new_decision_row (Some sid) now idx d)
                                  (enumerate 0 decisions_to_store)
                         else [])
                  in if or_empty (evidence si) \<noteq> [] \<and> created_decisions = []
                       then (Inl (HTTPException 400), w1)
                     else if or_empty (evidence si) \<noteq> [] \<and>
                             length (or_empty (evidence si)) > length created_decisions
                       then (Inl (HTTPException 400), w1)
                     else
                       (let new_evidence =
                              map (\<lambda>(ev, decision). new_evidence_row now ev decision)
                                (zip (or_empty (evidence si)) created_decisions);
                            (inserted_decisions, u1) = insert_decisions (Suc sid) created_decisions
                        in case insert_evidence u1 new_evidence of
                             Inl e \<Rightarrow> (Inl e, w1\<lparr>next_uuid := u1\<rparr>)
                           | Inr (inserted_evidence, u2) \<Rightarrow>
                               (Inr \<lparr>resp_step_id = sid, resp_stats = stats,
                                     resp_sampling_summary = sampling_summary\<rparr>,
                                w1\<lparr>db := (db w)
                                       \<lparr>steps := steps (db w) @ [step],
                                        decision_rows := decision_rows (db w) @ inserted_decisions,
                                        evidence_rows := evidence_rows (db w) @ inserted_evidence\<rparr>,
                                    next_uuid := u2\<rparr>)))))"


text \<open>A database with one run, and two submissions to run the model on.\<close>

definition demo_world :: "nat world" where
  "demo_world =
     \<lparr>db = \<lparr>runs = [\<lparr>run_id = 7, run_pipeline_type = ''competitor_selection'', run_status = ''running''\<rparr>],
             steps = [], decision_rows = [], evidence_rows = []\<rparr>,
      rng = 0, next_uuid = 100\<rparr>"

definition demo_step :: step_input where
  "demo_step =
     \<lparr>name = ''filtering'', step_in = None, step_out = None, config = None,
      decisions = Some [Decision ''a'' Accepted None None],
      evidence = Some [\<lparr>evidence_type = ''llm_output'', data = [], ev_timestamp = None\<rparr>],
      reasoning = None\<rparr>"

definition demo_big_step :: step_input where
  "demo_big_step =
     \<lparr>name = ''filtering'', step_in = None, step_out = None, config = None,
      decisions = Some (replicate 501 (Decision ''a'' Rejected (Some ''price'') None)),
      evidence = None,
      reasoning = None\<rparr>"

section \<open>Statistics\<close>

lemma map_of_count_reason:
  "map_of (count_reason reasons d) r =
     (if decision_type d = Rejected \<and> reason_or_unknown d = r
        then Some ((case map_of reasons r of None \<Rightarrow> 0 | Some c \<Rightarrow> c) + 1)
      else map_of reasons r)"
  by (simp add: count_reason_def Let_def update_conv')

lemma distinct_count_reason:
  "distinct (map fst acc) \<Longrightarrow> distinct (map fst (count_reason acc d))"
  by (simp add: count_reason_def Let_def distinct_update)

lemma distinct_foldl_count_reason:
  "distinct (map fst acc) \<Longrightarrow> distinct (map fst (foldl count_reason acc ds))"
  by (induction ds arbitrary: acc) (simp_all add: distinct_count_reason)

section \<open>Partitioning and sampling\<close>


lemma rejected_with_simps [simp]:
  "rejected_with r [] = []"
  "rejected_with r (d # ds) = (if decision_type d = Rejected \<and> reason_or_unknown d = r then d # rejected_with r ds else rejected_with r ds)"
  "rejected_with r (xs @ ys) = rejected_with r xs @ rejected_with r ys"
  by (simp_all add: rejected_with_def)

lemma keys_append_to_group:
  "map fst (append_to_group k d b) = (if k \<in> set (map fst b) then map fst b else map fst b @ [k])"
  by (induction b) force+

lemma map_of_append_to_group:
  "map_of (append_to_group k d b) k' =
     (if k' = k then Some ((case map_of b k of None \<Rightarrow> [] | Some xs \<Rightarrow> xs) @ [d]) else map_of b k')"
  by (induction b) auto

lemma distinct_append_to_group:
  "distinct (map fst b) \<Longrightarrow> distinct (map fst (append_to_group k d b))"
  by (simp add: keys_append_to_group)

lemma foldl_partition_step:
  "foldl partition_step (a, b, p) ds = (a', b', p') \<Longrightarrow>
     a' = a @ filter (\<lambda>d. decision_type d = Accepted) ds \<and>
     p' = p @ filter (\<lambda>d. decision_type d = Pending) ds \<and>
     (distinct (map fst b) \<longrightarrow> distinct (map fst b')) \<and>
     (\<forall>r. map_of b' r =
        (case map_of b r of
           None \<Rightarrow> (if rejected_with r ds = [] then None else Some (rejected_with r ds))
         | Some xs \<Rightarrow> Some (xs @ rejected_with r ds)))"
proof (induction ds arbitrary: a b p)
  case Nil
  then show ?case by (auto split: option.splits)
next
  case (Cons d ds)
  show ?case
  proof (cases "decision_type d")
    case Accepted
    with Cons.prems have "foldl partition_step (a @ [d], b, p) ds = (a', b', p')" by simp
    from Cons.IH [OF this] Accepted show ?thesis by (simp split: option.splits)
  next
    case Rejected
    with Cons.prems
    have "foldl partition_step (a, append_to_group (reason_or_unknown d) d b, p) ds = (a', b', p')"
      by simp
    from Cons.IH [OF this] Rejected show ?thesis
      by (auto simp: map_of_append_to_group distinct_append_to_group split: option.splits)
  next
    case Pending
    with Cons.prems have "foldl partition_step (a, b, p @ [d]) ds = (a', b', p')" by simp
    from Cons.IH [OF this] Pending show ?thesis by (simp split: option.splits)
  qed
qed

lemma partition_decisions_eq:
  assumes "partition_decisions ds = (a, b, p)"
  shows "a = filter (\<lambda>d. decision_type d = Accepted) ds"
    and "p = filter (\<lambda>d. decision_type d = Pending) ds"
    and "distinct (map fst b)"
    and "map_of b r = (if rejected_with r ds = [] then None else Some (rejected_with r ds))"
  using foldl_partition_step [of "[]" "[]" "[]" ds a b p] assms
  by (simp_all add: partition_decisions_def)


lemma random_sample_ok:
  assumes "chooser_ok pick" and "random_sample pick g items k = Inr (p, g')"
  shows "k \<le> int (length items) \<and> int (length p) = k \<and> mset p \<subseteq># mset items"
proof -
  from assms(2) have k: "0 \<le> k" "k \<le> int (length items)" and p: "pick g items (nat k) = (p, g')"
    by (auto simp: random_sample_def split: if_splits)
  from k have "nat k \<le> length items" by simp
  with assms(1) have "length (fst (pick g items (nat k))) = nat k \<and>
      mset (fst (pick g items (nat k))) \<subseteq># mset items"
    unfolding chooser_ok_def by blast
  with p k show ?thesis by simp
qed

lemma sample_groups_picks:
  assumes "chooser_ok pick"
  shows "sample_groups pick pr b acc g = Inr (out, g') \<Longrightarrow>
         \<exists>picks. out = acc @ concat picks \<and> list_all2 (drawn_from pr) b picks"
proof (induction b arbitrary: acc g)
  case Nil
  then show ?case by simp
next
  case (Cons grp b)
  obtain r items where grp: "grp = (r, items)" by (cases grp)
  show ?case
  proof (cases "int (length items) \<le> pr")
    case True
    with Cons.prems grp have "sample_groups pick pr b (acc @ items) g = Inr (out, g')" by simp
    from Cons.IH [OF this] obtain picks where
      "out = (acc @ items) @ concat picks" "list_all2 (drawn_from pr) b picks" by blast
    with True grp have "out = acc @ concat (items # picks) \<and>
        list_all2 (drawn_from pr) (grp # b) (items # picks)"
      by (simp add: drawn_from_def)
    then show ?thesis by blast
  next
    case False
    with Cons.prems grp obtain p g1 where
      rs: "random_sample pick g items pr = Inr (p, g1)" and
      rest: "sample_groups pick pr b (acc @ p) g1 = Inr (out, g')"
      by (auto split: sum.splits)
    from random_sample_ok [OF assms rs] False grp have "drawn_from pr grp p"
      by (simp add: drawn_from_def)
    moreover from Cons.IH [OF rest] obtain picks where
      "out = (acc @ p) @ concat picks" "list_all2 (drawn_from pr) b picks" by blast
    ultimately have "out = acc @ concat (p # picks) \<and>
        list_all2 (drawn_from pr) (grp # b) (p # picks)"
      by simp
    then show ?thesis by blast
  qed
qed

lemma sample_groups_returns:
  "0 \<le> pr \<Longrightarrow> \<exists>out g'. sample_groups pick pr b acc g = Inr (out, g')"
proof (induction b arbitrary: acc g)
  case Nil
  then show ?case by simp
next
  case (Cons grp b)
  obtain r items where grp: "grp = (r, items)" by (cases grp)
  show ?case
  proof (cases "int (length items) \<le> pr")
    case True
    with Cons grp show ?thesis by simp
  next
    case False
    obtain p g1 where pg: "pick g items (nat pr) = (p, g1)" by (cases "pick g items (nat pr)")
    with False Cons.prems have "random_sample pick g items pr = Inr (p, g1)"
      by (simp add: random_sample_def)
    with False grp Cons.IH [OF Cons.prems, of "acc @ p" g1]
    show ?thesis by simp
  qed
qed

lemma sample_groups_no_draw:
  "list_all (\<lambda>grp. int (length (snd grp)) \<le> pr) b \<Longrightarrow>
     sample_groups pick pr b acc g = Inr (acc @ concat (map snd b), g)"
  by (induction b arbitrary: acc) auto


lemma rejected_with_tagged:
  "\<forall>d\<in>set p. decision_type d = Rejected \<and> reason_or_unknown d = k \<Longrightarrow>
     rejected_with r p = (if r = k then p else [])"
  by (induction p) auto

lemma drawn_from_set: "drawn_from pr grp p \<Longrightarrow> set p \<subseteq> set (snd grp)"
  by (auto simp: drawn_from_def dest: mset_subset_eqD)

lemma rejected_with_picks:
  assumes "list_all2 (drawn_from pr) b picks"
    and "distinct (map fst b)"
    and "\<forall>grp\<in>set b. \<forall>d\<in>set (snd grp). decision_type d = Rejected \<and> reason_or_unknown d = fst grp"
  shows "case map_of b r of
           None \<Rightarrow> rejected_with r (concat picks) = []
         | Some items \<Rightarrow> drawn_from pr (r, items) (rejected_with r (concat picks))"
  using assms
proof (induction rule: list_all2_induct)
  case Nil
  then show ?case by simp
next
  case (Cons grp b p picks)
  obtain k items where grp: "grp = (k, items)" by (cases grp)
  from Cons.prems have dist: "distinct (map fst b)" and fresh: "k \<notin> fst ` set b"
    and tag: "\<forall>grp\<in>set b. \<forall>d\<in>set (snd grp). decision_type d = Rejected \<and> reason_or_unknown d = fst grp"
    and tagk: "\<forall>d\<in>set items. decision_type d = Rejected \<and> reason_or_unknown d = k"
    by (auto simp: grp)
  from drawn_from_set [OF Cons.hyps(1)] tagk grp
  have "\<forall>d\<in>set p. decision_type d = Rejected \<and> reason_or_unknown d = k" by auto
  then have p: "rejected_with r p = (if r = k then p else [])" by (rule rejected_with_tagged)
  note IH = Cons.IH [OF dist tag]
  show ?case
  proof (cases "r = k")
    case True
    from fresh have "map_of b k = None" by (simp add: map_of_eq_None_iff)
    with IH True have "rejected_with r (concat picks) = []" by simp
    with True p Cons.hyps(1) grp show ?thesis by simp
  next
    case False
    with p IH grp show ?thesis by (simp split: option.splits)
  qed
qed

lemma sort_by_sequence_mset: "sort_by_sequence xs = Inr ys \<Longrightarrow> mset ys = mset xs"
  by (auto simp: sort_by_sequence_def split: if_splits)

lemma sortable_subset: "sortable ds \<Longrightarrow> set xs \<subseteq> set ds \<Longrightarrow> sortable xs"
  by (auto simp: sortable_def list_all_iff)

lemma sort_by_sequence_sortable: "sortable xs \<Longrightarrow> \<exists>ys. sort_by_sequence xs = Inr ys"
  by (auto simp: sort_by_sequence_def sortable_def)

lemma mset_groups_append_to_group:
  "mset (concat (map snd (append_to_group k d b))) = mset (concat (map snd b)) + {#d#}"
  by (induction b) auto

lemma foldl_partition_step_groups:
  "foldl partition_step (a, b, p) ds = (a', b', p') \<Longrightarrow>
     mset (concat (map snd b')) =
       mset (concat (map snd b)) + mset (filter (\<lambda>d. decision_type d = Rejected) ds)"
proof (induction ds arbitrary: a b p)
  case Nil
  then show ?case by simp
next
  case (Cons d ds)
  show ?case
  proof (cases "decision_type d")
    case Accepted
    with Cons.prems have "foldl partition_step (a @ [d], b, p) ds = (a', b', p')" by simp
    from Cons.IH [OF this] Accepted show ?thesis by simp
  next
    case Rejected
    with Cons.prems
    have "foldl partition_step (a, append_to_group (reason_or_unknown d) d b, p) ds = (a', b', p')"
      by simp
    from Cons.IH [OF this] Rejected show ?thesis
      by (simp add: mset_groups_append_to_group)
  next
    case Pending
    with Cons.prems have "foldl partition_step (a, b, p @ [d]) ds = (a', b', p')" by simp
    from Cons.IH [OF this] Pending show ?thesis by simp
  qed
qed

lemma mset_three_kinds:
  "mset (filter (\<lambda>d. decision_type d = Accepted) ds) +
   mset (filter (\<lambda>d. decision_type d = Rejected) ds) +
   mset (filter (\<lambda>d. decision_type d = Pending) ds) = mset ds"
proof (induction ds)
  case Nil
  then show ?case by simp
next
  case (Cons d ds)
  then show ?case by (cases "decision_type d") simp_all
qed

lemma mset_concat_picks:
  "list_all2 (drawn_from pr) b picks \<Longrightarrow> mset (concat picks) \<subseteq># mset (concat (map snd b))"
proof (induction rule: list_all2_induct)
  case Nil
  then show ?case by simp
next
  case (Cons grp b p picks)
  then show ?case by (simp add: drawn_from_def subset_mset.add_mono)
qed

lemma partition_groups_tagged:
  assumes "partition_decisions ds = (a, b, p)"
  shows "\<forall>grp\<in>set b. snd grp = rejected_with (fst grp) ds \<and> snd grp \<noteq> []"
proof
  fix grp assume "grp \<in> set b"
  then have "(fst grp, snd grp) \<in> set b" by simp
  with partition_decisions_eq(3) [OF assms] have "map_of b (fst grp) = Some (snd grp)"
    by (simp add: map_of_eq_Some_iff)
  with partition_decisions_eq(4) [OF assms, of "fst grp"]
  show "snd grp = rejected_with (fst grp) ds \<and> snd grp \<noteq> []"
    by (auto split: if_splits)
qed


lemma sample_over_threshold:
  assumes "chooser_ok pick"
    and "\<not> int (length ds) \<le> threshold self"
    and "sample pick self g ds = Inr ((out, w), g')"
  shows "\<exists>b picks.
           partition_decisions ds =
             (filter (\<lambda>d. decision_type d = Accepted) ds, b,
              filter (\<lambda>d. decision_type d = Pending) ds) \<and>
           sample_groups pick (per_reason self) b [] g = Inr (concat picks, g') \<and>
           list_all2 (drawn_from (per_reason self)) b picks \<and>
           sort_by_sequence
             (filter (\<lambda>d. decision_type d = Accepted) ds @ concat picks @
              filter (\<lambda>d. decision_type d = Pending) ds) = Inr out \<and>
           w"
proof -
  obtain a b p where part: "partition_decisions ds = (a, b, p)"
    by (cases "partition_decisions ds")
  note eqs = partition_decisions_eq(1,2) [OF part]
  from assms(2,3) part obtain sr where
    sg: "sample_groups pick (per_reason self) b [] g = Inr (sr, g')" and
    srt: "sort_by_sequence (a @ sr @ p) = Inr out" and w: "w"
    by (auto simp: sample_def split: sum.splits)
  from sample_groups_picks [OF assms(1) sg] obtain picks where
    "sr = concat picks" "list_all2 (drawn_from (per_reason self)) b picks" by auto
  with part sg srt w eqs show ?thesis by auto
qed

lemma sample_sub_mset:
  assumes "chooser_ok pick" and "sample pick self g ds = Inr ((out, w), g')"
  shows "mset out \<subseteq># mset ds"
proof (cases "int (length ds) \<le> threshold self")
  case True
  with assms(2) show ?thesis by (simp add: sample_def)
next
  case False
  from sample_over_threshold [OF assms(1) False assms(2)] obtain b picks where
    part: "partition_decisions ds =
             (filter (\<lambda>d. decision_type d = Accepted) ds, b,
              filter (\<lambda>d. decision_type d = Pending) ds)" and
    picks: "list_all2 (drawn_from (per_reason self)) b picks" and
    srt: "sort_by_sequence
             (filter (\<lambda>d. decision_type d = Accepted) ds @ concat picks @
              filter (\<lambda>d. decision_type d = Pending) ds) = Inr out"
    by blast
  from part have "mset (concat (map snd b)) = mset (filter (\<lambda>d. decision_type d = Rejected) ds)"
    using foldl_partition_step_groups [of "[]" "[]" "[]" ds _ b _]
    by (simp add: partition_decisions_def)
  with mset_concat_picks [OF picks]
  have "mset (concat picks) \<subseteq># mset (filter (\<lambda>d. decision_type d = Rejected) ds)" by simp
  then have "mset (filter (\<lambda>d. decision_type d = Accepted) ds) + mset (concat picks) +
      mset (filter (\<lambda>d. decision_type d = Pending) ds) \<subseteq># mset ds"
    by (subst (2) mset_three_kinds [symmetric]) (simp add: subset_mset.add_mono)
  with sort_by_sequence_mset [OF srt] show ?thesis by (simp add: ac_simps)
qed

lemma sample_returns:
  assumes "chooser_ok pick" and "0 \<le> per_reason self" and "sortable ds"
  shows "\<exists>out w g'. sample pick self g ds = Inr ((out, w), g')"
proof (cases "int (length ds) \<le> threshold self")
  case True
  then have "sample pick self g ds = Inr ((ds, False), g)" by (simp add: sample_def)
  then show ?thesis by blast
next
  case False
  obtain a b p where part: "partition_decisions ds = (a, b, p)"
    by (cases "partition_decisions ds")
  note eqs = partition_decisions_eq(1,2) [OF part]
  from sample_groups_returns [OF assms(2), of pick b "[]" g] obtain sr g' where
    sg: "sample_groups pick (per_reason self) b [] g = Inr (sr, g')" by blast
  from sample_groups_picks [OF assms(1) sg] obtain picks where
    sr: "sr = concat picks" and picks: "list_all2 (drawn_from (per_reason self)) b picks" by auto
  from part have "mset (concat (map snd b)) = mset (filter (\<lambda>d. decision_type d = Rejected) ds)"
    using foldl_partition_step_groups [of "[]" "[]" "[]" ds _ b _]
    by (simp add: partition_decisions_def)
  with mset_concat_picks [OF picks]
  have "mset sr \<subseteq># mset (filter (\<lambda>d. decision_type d = Rejected) ds)" by (simp add: sr)
  then have "set sr \<subseteq> set ds" by (auto dest: mset_subset_eqD)
  with eqs have "set (a @ sr @ p) \<subseteq> set ds" by auto
  from sortable_subset [OF assms(3) this] obtain res where
    "sort_by_sequence (a @ sr @ p) = Inr res" using sort_by_sequence_sortable by blast
  with False part sg have "sample pick self g ds = Inr ((res, True), g')"
    by (simp add: sample_def)
  then show ?thesis by blast
qed



section \<open>Properties of the sampler\<close>


lemma mset_rotate_eq: "mset (rotate n xs) = mset xs"
proof -
  have "mset xs = mset (take (n mod length xs) xs @ drop (n mod length xs) xs)"
    by simp
  also have "\<dots> = mset (drop (n mod length xs) xs @ take (n mod length xs) xs)"
    by (simp only: mset_append add.commute)
  finally show ?thesis by (simp add: rotate_drop_take)
qed

lemma rotate_chooser_ok: "chooser_ok rotate_chooser"
  unfolding chooser_ok_def rotate_chooser_def
proof (intro allI impI conjI)
  fix g :: nat and xs :: "'a list" and k :: nat
  assume "k \<le> length xs"
  then show "length (fst (take k (rotate g xs), Suc g)) = k" by simp
  have "mset (take k (rotate g xs)) \<subseteq># mset (rotate g xs)"
    by (metis append_take_drop_id mset_append mset_subset_eq_add_left)
  then show "mset (fst (take k (rotate g xs), Suc g)) \<subseteq># mset xs"
    by (simp add: mset_rotate_eq)
qed

lemma foldl_count_reason:
  "map_of (foldl count_reason acc ds) r =
     (case map_of acc r of
        None \<Rightarrow> (if rejected_with r ds = [] then None else Some (length (rejected_with r ds)))
      | Some a \<Rightarrow> Some (a + length (rejected_with r ds)))"
proof (induction ds arbitrary: acc)
  case Nil
  then show ?case by (simp split: option.splits)
next
  case (Cons d ds)
  show ?case
    by (simp add: Cons.IH map_of_count_reason split: option.splits)
qed

lemma compute_stats_by_bucket:
  "input_count (compute_stats ds) = length ds \<and>
   output_count (compute_stats ds) = length (filter (\<lambda>d. decision_type d = Accepted) ds) \<and>
   rejection_rate (compute_stats ds) =
     (if length ds = 0 then 0
      else of_nat (length (filter (\<lambda>d. decision_type d = Rejected) ds)) / of_nat (length ds)) \<and>
   distinct (map fst (rejection_reasons (compute_stats ds))) \<and>
   (\<forall>r. map_of (rejection_reasons (compute_stats ds)) r =
      (if rejected_with r ds = [] then None else Some (length (rejected_with r ds)))) \<and>
   reason_or_unknown (d\<lparr>reason := None\<rparr>) = ''unknown'' \<and>
   compute_stats [] =
     \<lparr>input_count = 0, output_count = 0, rejection_rate = 0, rejection_reasons = []\<rparr>"
proof (cases "ds = []")
  case True
  then show ?thesis by (simp add: compute_stats_def reason_or_unknown_def)
next
  case False
  have "distinct (map fst (foldl count_reason [] ds))"
    by (rule distinct_foldl_count_reason) simp
  moreover have "\<forall>r. map_of (foldl count_reason [] ds) r =
      (if rejected_with r ds = [] then None else Some (length (rejected_with r ds)))"
    by (simp add: foldl_count_reason)
  ultimately show ?thesis using False
    by (simp add: compute_stats_def Let_def reason_or_unknown_def)
qed

text \<open>
  Claim C2. When the list is no longer than the threshold, \<open>sample\<close> returns the very
  list, in its order, with \<open>was_sampled = False\<close>, and draws nothing. Hence sampling the
  output of a call again, once that output fits the threshold, returns it unchanged.
\<close>

theorem sample_within_threshold_unchanged:
  "(int (length ds) \<le> threshold self \<longrightarrow> sample pick self g ds = Inr ((ds, False), g)) \<and>
   (\<forall>out w g'. sample pick self g ds = Inr ((out, w), g') \<and> int (length out) \<le> threshold self
      \<longrightarrow> sample pick self g' out = Inr ((out, False), g'))"
  by (simp add: sample_def)


lemma sample_over_threshold_parts:
  assumes "chooser_ok pick"
    and "\<not> int (length ds) \<le> threshold self"
    and "sample pick self g ds = Inr ((out, w), g')"
  shows "\<exists>b S. partition_decisions ds =
             (filter (\<lambda>d. decision_type d = Accepted) ds, b,
              filter (\<lambda>d. decision_type d = Pending) ds) \<and>
           sample_groups pick (per_reason self) b [] g = Inr (S, g') \<and>
           mset out = mset (filter (\<lambda>d. decision_type d = Accepted) ds) + mset S +
                      mset (filter (\<lambda>d. decision_type d = Pending) ds) \<and>
           (\<forall>d\<in>set S. decision_type d = Rejected) \<and>
           (\<forall>r. case map_of b r of
                  None \<Rightarrow> rejected_with r S = []
                | Some items \<Rightarrow> drawn_from (per_reason self) (r, items) (rejected_with r S))"
proof -
  from sample_over_threshold [OF assms] obtain b picks where
    part: "partition_decisions ds =
             (filter (\<lambda>d. decision_type d = Accepted) ds, b,
              filter (\<lambda>d. decision_type d = Pending) ds)" and
    sg: "sample_groups pick (per_reason self) b [] g = Inr (concat picks, g')" and
    picks: "list_all2 (drawn_from (per_reason self)) b picks" and
    srt: "sort_by_sequence
             (filter (\<lambda>d. decision_type d = Accepted) ds @ concat picks @
              filter (\<lambda>d. decision_type d = Pending) ds) = Inr out"
    by blast
  have tag: "\<forall>grp\<in>set b. \<forall>d\<in>set (snd grp).
      decision_type d = Rejected \<and> reason_or_unknown d = fst grp"
    using partition_groups_tagged [OF part] by (auto simp: rejected_with_def)
  from part have "mset (concat (map snd b)) = mset (filter (\<lambda>d. decision_type d = Rejected) ds)"
    using foldl_partition_step_groups [of "[]" "[]" "[]" ds _ b _]
    by (simp add: partition_decisions_def)
  with mset_concat_picks [OF picks]
  have "mset (concat picks) \<subseteq># mset (filter (\<lambda>d. decision_type d = Rejected) ds)" by simp
  from set_mset_mono [OF this]
  have rej: "\<forall>d\<in>set (concat picks). decision_type d = Rejected"
    by (simp only: set_mset_mset) auto
  have "\<forall>r. case map_of b r of
                  None \<Rightarrow> rejected_with r (concat picks) = []
                | Some items \<Rightarrow> drawn_from (per_reason self) (r, items) (rejected_with r (concat picks))"
    using rejected_with_picks [OF picks partition_decisions_eq(3) [OF part] tag] by blast
  with part sg sort_by_sequence_mset [OF srt] rej show ?thesis
    by (intro exI [of _ b] exI [of _ "concat picks"]) simp
qed

lemma rejected_with_not_rejected:
  "\<forall>d\<in>set xs. decision_type d \<noteq> Rejected \<Longrightarrow> rejected_with r xs = []"
  by (induction xs) auto

lemma sample_over_threshold_kept:
  assumes "chooser_ok pick"
    and "\<not> int (length ds) \<le> threshold self"
    and "sample pick self g ds = Inr ((out, w), g')"
  shows "filter_mset (\<lambda>d. decision_type d = Accepted) (mset out) =
           filter_mset (\<lambda>d. decision_type d = Accepted) (mset ds)"
    and "filter_mset (\<lambda>d. decision_type d = Pending) (mset out) =
           filter_mset (\<lambda>d. decision_type d = Pending) (mset ds)"
proof -
  from sample_over_threshold_parts [OF assms] obtain S where
    out: "mset out = mset (filter (\<lambda>d. decision_type d = Accepted) ds) + mset S +
                      mset (filter (\<lambda>d. decision_type d = Pending) ds)" and
    rej: "\<forall>d\<in>set S. decision_type d = Rejected"
    by blast
  from rej have "filter_mset (\<lambda>d. decision_type d = Accepted) (mset S) = {#}"
    and "filter_mset (\<lambda>d. decision_type d = Pending) (mset S) = {#}"
    by auto
  moreover have "filter_mset (\<lambda>d. decision_type d = Accepted)
        (mset (filter (\<lambda>d. decision_type d = Pending) ds)) = {#}"
    and "filter_mset (\<lambda>d. decision_type d = Pending)
        (mset (filter (\<lambda>d. decision_type d = Accepted) ds)) = {#}"
    by auto
  ultimately show "filter_mset (\<lambda>d. decision_type d = Accepted) (mset out) =
           filter_mset (\<lambda>d. decision_type d = Accepted) (mset ds)"
    and "filter_mset (\<lambda>d. decision_type d = Pending) (mset out) =
           filter_mset (\<lambda>d. decision_type d = Pending) (mset ds)"
    by (simp_all add: out filter_filter_mset)
qed

lemma sample_over_threshold_rejected:
  assumes "chooser_ok pick"
    and "\<not> int (length ds) \<le> threshold self"
    and "sample pick self g ds = Inr ((out, w), g')"
  shows "mset (rejected_with r out) \<subseteq># mset (rejected_with r ds)"
    and "rejected_with r ds \<noteq> [] \<or> 0 \<le> per_reason self \<Longrightarrow>
           int (length (rejected_with r out)) =
             min (int (length (rejected_with r ds))) (per_reason self)"
    and "int (length (rejected_with r ds)) \<le> per_reason self \<Longrightarrow>
           mset (rejected_with r out) = mset (rejected_with r ds)"
proof -
  from sample_over_threshold_parts [OF assms] obtain b S where
    part: "partition_decisions ds =
             (filter (\<lambda>d. decision_type d = Accepted) ds, b,
              filter (\<lambda>d. decision_type d = Pending) ds)" and
    out: "mset out = mset (filter (\<lambda>d. decision_type d = Accepted) ds) + mset S +
                      mset (filter (\<lambda>d. decision_type d = Pending) ds)" and
    S: "case map_of b r of
          None \<Rightarrow> rejected_with r S = []
        | Some items \<Rightarrow> drawn_from (per_reason self) (r, items) (rejected_with r S)"
    by blast
  have "mset (rejected_with r out) = filter_mset (\<lambda>d. decision_type d = Rejected \<and> reason_or_unknown d = r) (mset out)"
    by (simp add: rejected_with_def)
  also have "\<dots> = mset (rejected_with r (filter (\<lambda>d. decision_type d = Accepted) ds)) +
      mset (rejected_with r S) + mset (rejected_with r (filter (\<lambda>d. decision_type d = Pending) ds))"
    by (simp add: out rejected_with_def)
  also have "\<dots> = mset (rejected_with r S)"
    by (simp add: rejected_with_not_rejected)
  finally have eq: "mset (rejected_with r out) = mset (rejected_with r S)" .
  then have len: "length (rejected_with r out) = length (rejected_with r S)"
    by (metis size_mset)
  note m = partition_decisions_eq(4) [OF part, of r]
  show "mset (rejected_with r out) \<subseteq># mset (rejected_with r ds)"
    using S m eq by (auto simp: drawn_from_def split: if_splits)
  show "int (length (rejected_with r out)) =
             min (int (length (rejected_with r ds))) (per_reason self)"
    if "rejected_with r ds \<noteq> [] \<or> 0 \<le> per_reason self"
    using S m len that by (auto simp: drawn_from_def split: if_splits)
  show "mset (rejected_with r out) = mset (rejected_with r ds)"
    if "int (length (rejected_with r ds)) \<le> per_reason self"
    using S m eq that by (auto simp: drawn_from_def split: if_splits)
qed


lemma sample_no_draw_generator:
  assumes "\<not> int (length ds) \<le> threshold self"
    and "\<forall>r. int (length (rejected_with r ds)) \<le> per_reason self"
    and "sample pick self g ds = Inr ((out, w), g')"
  shows "g' = g"
proof -
  obtain a b p where part: "partition_decisions ds = (a, b, p)"
    by (cases "partition_decisions ds")
  from partition_groups_tagged [OF part] assms(2)
  have "list_all (\<lambda>grp. int (length (snd grp)) \<le> per_reason self) b"
    by (simp add: list_all_iff)
  from sample_groups_no_draw [OF this, of pick "[]" g]
  have "sample_groups pick (per_reason self) b [] g = Inr (concat (map snd b), g)" by simp
  with assms(1,3) part show ?thesis
    by (auto simp: sample_def split: sum.splits)
qed

lemma sample_caps_by_bucket:
  assumes "chooser_ok pick"
    and "threshold self < int (length ds)"
    and "0 \<le> per_reason self"
    and "sortable ds"
  shows "\<exists>out g'. sample pick self g ds = Inr ((out, True), g') \<and>
           filter_mset (\<lambda>d. decision_type d = Accepted) (mset out) =
             filter_mset (\<lambda>d. decision_type d = Accepted) (mset ds) \<and>
           filter_mset (\<lambda>d. decision_type d = Pending) (mset out) =
             filter_mset (\<lambda>d. decision_type d = Pending) (mset ds) \<and>
           (\<forall>r. mset (rejected_with r out) \<subseteq># mset (rejected_with r ds) \<and>
                int (length (rejected_with r out)) =
                  min (int (length (rejected_with r ds))) (per_reason self)) \<and>
           (\<forall>r. int (length (rejected_with r ds)) = per_reason self \<longrightarrow>
                mset (rejected_with r out) = mset (rejected_with r ds)) \<and>
           ((\<forall>r. int (length (rejected_with r ds)) \<le> per_reason self) \<longrightarrow> g' = g) \<and>
           (\<forall>r items rest acc. int (length items) = per_reason self \<longrightarrow>
              sample_groups pick (per_reason self) ((r, items) # rest) acc g =
              sample_groups pick (per_reason self) rest (acc @ items) g)"
proof -
  from assms(2) have over: "\<not> int (length ds) \<le> threshold self" by simp
  from sample_returns [OF assms(1,3,4)] obtain out w g' where
    ret: "sample pick self g ds = Inr ((out, w), g')" by blast
  from over ret have w: "w" by (auto simp: sample_def split: sum.splits prod.splits)
  note kept = sample_over_threshold_kept [OF assms(1) over ret]
  note rej = sample_over_threshold_rejected [OF assms(1) over ret]
  have "\<forall>r. mset (rejected_with r out) \<subseteq># mset (rejected_with r ds) \<and>
                int (length (rejected_with r out)) =
                  min (int (length (rejected_with r ds))) (per_reason self)"
    using rej(1,2) assms(3) by blast
  moreover have "\<forall>r. int (length (rejected_with r ds)) = per_reason self \<longrightarrow>
                mset (rejected_with r out) = mset (rejected_with r ds)"
    using rej(3) by simp
  moreover have "(\<forall>r. int (length (rejected_with r ds)) \<le> per_reason self) \<longrightarrow> g' = g"
    using sample_no_draw_generator [OF over _ ret] by blast
  ultimately show ?thesis using ret w kept by auto
qed

text \<open>
  Claim C10. Whatever \<open>sample\<close> returns is a sub-multiset of its input: every decision of
  the output is a decision of the input, as often at most as it occurs there, so the
  output is no longer than the input. And \<open>sample\<close> does return when \<open>per_reason \<ge> 0\<close> and
  the sort keys can be compared.
\<close>

theorem sample_output_sub_multiset:
  assumes "chooser_ok pick"
  shows "(\<forall>out w g'. sample pick self g ds = Inr ((out, w), g') \<longrightarrow>
            mset out \<subseteq># mset ds \<and> length out \<le> length ds) \<and>
         (0 \<le> per_reason self \<and> sortable ds \<longrightarrow>
            (\<exists>out w g'. sample pick self g ds = Inr ((out, w), g')))"
proof (intro conjI allI impI)
  fix out w g'
  assume ret: "sample pick self g ds = Inr ((out, w), g')"
  from sample_sub_mset [OF assms ret] show "mset out \<subseteq># mset ds" .
  then show "length out \<le> length ds" by (metis size_mset size_mset_mono)
next
  assume "0 \<le> per_reason self \<and> sortable ds"
  then show "\<exists>out w g'. sample pick self g ds = Inr ((out, w), g')"
    using sample_returns [OF assms] by blast
qed

lemma sort_by_sequence_sorted:
  assumes "sort_by_sequence xs = Inr ys"
  shows "sorted_wrt (\<lambda>a b. py_le (sequence_key a) (sequence_key b)) ys"
proof (cases "list_all (\<lambda>d. is_int (sequence_key d)) xs")
  case True
  with assms have ys: "ys = sort_key (\<lambda>d. int_of (sequence_key d)) xs"
    by (simp add: sort_by_sequence_def)
  have "sorted (map (\<lambda>d. int_of (sequence_key d)) ys)" by (simp add: ys)
  then have sw: "sorted_wrt (\<lambda>a b. int_of (sequence_key a) \<le> int_of (sequence_key b)) ys"
    by (simp add: sorted_map)
  from True have kinds: "\<forall>d\<in>set ys. is_int (sequence_key d)" by (simp add: ys list_all_iff)
  show ?thesis
  proof (rule sorted_wrt_mono_rel [OF _ sw])
    fix a b assume "a \<in> set ys" "b \<in> set ys"
      "int_of (sequence_key a) \<le> int_of (sequence_key b)"
    with kinds show "py_le (sequence_key a) (sequence_key b)"
      by (cases "sequence_key a"; cases "sequence_key b") auto
  qed
next
  case False
  with assms have all: "list_all (\<lambda>d. is_str (sequence_key d)) xs"
    and ys: "ys = sort_key (\<lambda>d. str_of (sequence_key d)) xs"
    by (auto simp: sort_by_sequence_def split: if_splits)
  have "sorted (map (\<lambda>d. str_of (sequence_key d)) ys)" by (simp add: ys)
  then have sw: "sorted_wrt (\<lambda>a b. str_of (sequence_key a) \<le> str_of (sequence_key b)) ys"
    by (simp add: sorted_map)
  from all have kinds: "\<forall>d\<in>set ys. is_str (sequence_key d)" by (simp add: ys list_all_iff)
  show ?thesis
  proof (rule sorted_wrt_mono_rel [OF _ sw])
    fix a b assume "a \<in> set ys" "b \<in> set ys"
      "str_of (sequence_key a) \<le> str_of (sequence_key b)"
    with kinds show "py_le (sequence_key a) (sequence_key b)"
      by (cases "sequence_key a"; cases "sequence_key b") auto
  qed
qed


lemmas run_sample =
  sample_def partition_decisions_def Decision_def reason_or_unknown_def random_sample_def
  rotate_chooser_def sort_by_sequence_def sequence_key_def demo_sampler_def demo_decisions_def

lemma demo_run:
  "sample rotate_chooser demo_sampler (0::nat) demo_decisions =
     Inr (([Decision ''c'' Accepted None None, Decision ''a'' Rejected (Some ''price'') None], True), 1)"
  by (simp add: run_sample)

theorem sample_output_sub_multiset_witness:
  "chooser_ok (rotate_chooser :: (nat, decision) chooser) \<and>
   sample rotate_chooser demo_sampler (0::nat) demo_decisions =
     Inr (([Decision ''c'' Accepted None None, Decision ''a'' Rejected (Some ''price'') None], True), 1) \<and>
   mset [Decision ''c'' Accepted None None, Decision ''a'' Rejected (Some ''price'') None]
     \<subseteq># mset demo_decisions \<and>
   0 \<le> per_reason demo_sampler \<and> sortable demo_decisions"
proof -
  have h1: "chooser_ok (rotate_chooser :: (nat, decision) chooser)" by (rule rotate_chooser_ok)
  have h3: "0 \<le> per_reason demo_sampler" by (simp add: demo_sampler_def)
  have h4: "sortable demo_decisions"
    by (simp add: sortable_def demo_decisions_def Decision_def sequence_key_def)
  from sample_output_sub_multiset [OF h1, of demo_sampler 0 demo_decisions] demo_run
  have "mset [Decision ''c'' Accepted None None, Decision ''a'' Rejected (Some ''price'') None]
     \<subseteq># mset demo_decisions" by blast
  with h1 h3 h4 demo_run show ?thesis by simp
qed

theorem sample_within_threshold_unchanged_witness:
  "int (length [Decision ''c'' Accepted None None, Decision ''a'' Rejected (Some ''price'') None])
     \<le> threshold demo_sampler \<and>
   sample rotate_chooser demo_sampler (0::nat) demo_decisions =
     Inr (([Decision ''c'' Accepted None None, Decision ''a'' Rejected (Some ''price'') None], True), 1) \<and>
   sample rotate_chooser demo_sampler (1::nat)
     [Decision ''c'' Accepted None None, Decision ''a'' Rejected (Some ''price'') None] =
     Inr (([Decision ''c'' Accepted None None, Decision ''a'' Rejected (Some ''price'') None], False), 1)"
proof -
  have h: "int (length [Decision ''c'' Accepted None None, Decision ''a'' Rejected (Some ''price'') None])
     \<le> threshold demo_sampler" by (simp add: demo_sampler_def)
  from sample_within_threshold_unchanged [of demo_decisions demo_sampler rotate_chooser "0::nat"]
    demo_run h
  have "sample rotate_chooser demo_sampler (1::nat)
     [Decision ''c'' Accepted None None, Decision ''a'' Rejected (Some ''price'') None] =
     Inr (([Decision ''c'' Accepted None None, Decision ''a'' Rejected (Some ''price'') None], False), 1)"
    by blast
  with h demo_run show ?thesis by simp
qed



subsection \<open>Reasons read from the decisions\<close>

lemma in_bucket_iff:
  "in_bucket r d \<longleftrightarrow> decision_type d = Rejected \<and> reason_or_unknown d = r"
  by (auto simp: in_bucket_def reason_or_unknown_def split: option.splits)

lemma filter_in_bucket: "filter (in_bucket r) ds = rejected_with r ds"
  unfolding rejected_with_def by (rule filter_cong) (simp_all add: in_bucket_iff)

lemma filter_in_bucket_stated:
  "r \<noteq> [] \<Longrightarrow> r \<noteq> ''unknown'' \<Longrightarrow>
     filter (in_bucket r) ds = filter (\<lambda>d. decision_type d = Rejected \<and> reason d = Some r) ds"
  by (rule filter_cong) (auto simp: in_bucket_def)

lemma sequence_key_eq: "sequence_key d = metadata_sequence d"
  by (simp add: sequence_key_def metadata_sequence_def split: option.splits)

lemma sortable_eq: "sortable ds = comparable_sequences ds"
  by (simp add: sortable_def comparable_sequences_def sequence_key_eq)

lemma demo_mixed_run:
  "sample rotate_chooser demo_sampler (0::nat) demo_mixed = Inr ((demo_mixed_sampled, True), 1)"
  by (simp add: run_sample demo_mixed_def demo_mixed_sampled_def)

text \<open>
  Claim C4. For every decision list, \<open>compute_stats\<close> returns \<open>input_count\<close> = the number
  of decisions, \<open>output_count\<close> = the number of accepted ones, \<open>rejection_rate\<close> = rejected
  over \<open>input_count\<close> and \<open>0\<close> when there is none, and \<open>rejection_reasons\<close> = a dictionary
  (keys distinct) built from the rejected decisions only: a reason \<open>r\<close> that some rejected
  decision states has the number of rejected decisions stating \<open>r\<close> as its entry, a
  rejected decision without reason is counted under \<open>unknown\<close>, and a reason no
  rejected decision falls under has no entry. The empty list gives the all-zero record.
\<close>

theorem compute_stats_fields:
  "input_count (compute_stats ds) = length ds \<and>
   output_count (compute_stats ds) = length (filter (\<lambda>d. decision_type d = Accepted) ds) \<and>
   rejection_rate (compute_stats ds) =
     (if length ds = 0 then 0
      else of_nat (length (filter (\<lambda>d. decision_type d = Rejected) ds)) / of_nat (length ds)) \<and>
   distinct (map fst (rejection_reasons (compute_stats ds))) \<and>
   (\<forall>r. map_of (rejection_reasons (compute_stats ds)) r =
      (if filter (in_bucket r) ds = [] then None
       else Some (length (filter (in_bucket r) ds)))) \<and>
   (\<forall>r. r \<noteq> [] \<and> r \<noteq> ''unknown'' \<longrightarrow>
      map_of (rejection_reasons (compute_stats ds)) r =
        (if filter (\<lambda>d. decision_type d = Rejected \<and> reason d = Some r) ds = [] then None
         else Some (length (filter (\<lambda>d. decision_type d = Rejected \<and> reason d = Some r) ds)))) \<and>
   compute_stats [] =
     \<lparr>input_count = 0, output_count = 0, rejection_rate = 0, rejection_reasons = []\<rparr>"
proof -
  note b = compute_stats_by_bucket [of ds]
  from b have m: "map_of (rejection_reasons (compute_stats ds)) r =
      (if filter (in_bucket r) ds = [] then None
       else Some (length (filter (in_bucket r) ds)))" for r
    by (simp add: filter_in_bucket)
  have "map_of (rejection_reasons (compute_stats ds)) r =
        (if filter (\<lambda>d. decision_type d = Rejected \<and> reason d = Some r) ds = [] then None
         else Some (length (filter (\<lambda>d. decision_type d = Rejected \<and> reason d = Some r) ds)))"
    if "r \<noteq> [] \<and> r \<noteq> ''unknown''" for r
  proof -
    from that have "filter (in_bucket r) ds =
        filter (\<lambda>d. decision_type d = Rejected \<and> reason d = Some r) ds"
      by (simp add: filter_in_bucket_stated)
    with m [of r] show ?thesis by simp
  qed
  with b m show ?thesis by simp
qed

theorem compute_stats_fields_witness:
  "compute_stats demo_mixed =
     \<lparr>input_count = 6, output_count = 1, rejection_rate = 2 / 3,
      rejection_reasons = [(''price'', 2), (''rating'', 1), (''unknown'', 1)]\<rparr> \<and>
   ''price'' \<noteq> [] \<and> ''price'' \<noteq> ''unknown'' \<and>
   length (filter (\<lambda>d. decision_type d = Rejected \<and> reason d = Some ''price'') demo_mixed) = 2 \<and>
   map_of (rejection_reasons (compute_stats demo_mixed)) ''price'' = Some 2 \<and>
   length (filter (\<lambda>d. decision_type d = Rejected \<and> reason d = Some ''rating'') demo_mixed) = 1 \<and>
   map_of (rejection_reasons (compute_stats demo_mixed)) ''rating'' = Some 1 \<and>
   map_of (rejection_reasons (compute_stats demo_mixed)) ''shipping'' = None"
proof -
  have ev: "compute_stats demo_mixed =
     \<lparr>input_count = 6, output_count = 1, rejection_rate = 2 / 3,
      rejection_reasons = [(''price'', 2), (''rating'', 1), (''unknown'', 1)]\<rparr>"
    by (simp add: compute_stats_def count_reason_def reason_or_unknown_def demo_mixed_def
        Decision_def)
  have p: "length (filter (\<lambda>d. decision_type d = Rejected \<and> reason d = Some ''price'') demo_mixed) = 2"
    and r: "length (filter (\<lambda>d. decision_type d = Rejected \<and> reason d = Some ''rating'') demo_mixed) = 1"
    and s: "filter (\<lambda>d. decision_type d = Rejected \<and> reason d = Some ''shipping'') demo_mixed = []"
    by (simp_all add: demo_mixed_def Decision_def)
  from compute_stats_fields [of demo_mixed] p
  have "map_of (rejection_reasons (compute_stats demo_mixed)) ''price'' = Some 2" by force
  moreover from compute_stats_fields [of demo_mixed] r
  have "map_of (rejection_reasons (compute_stats demo_mixed)) ''rating'' = Some 1" by force
  moreover from compute_stats_fields [of demo_mixed] s
  have "map_of (rejection_reasons (compute_stats demo_mixed)) ''shipping'' = None" by force
  ultimately show ?thesis using ev p r by simp
qed

text \<open>
  Claim C1, as amended. For a list longer than the threshold, with \<open>per_reason \<ge> 0\<close>
  and sequences that are all integers or all strings, \<open>sample\<close> returns, and its output
  has exactly the accepted decisions of the input, exactly its pending ones, and for
  each reason \<open>r\<close> with \<open>c\<close> rejected decisions stating it (those without reason under
  \<open>unknown\<close>) \<open>min c per_reason\<close> of them. A bucket of size exactly \<open>per_reason\<close> is
  kept whole, and the loop passes it without a draw: the generator state is handed on
  as it is (and is the initial one at the end when every bucket fits).
\<close>

theorem sample_keeps_accepted_pending_caps_rejected:
  assumes "chooser_ok pick"
    and "threshold self < int (length ds)"
    and "0 \<le> per_reason self"
    and "comparable_sequences ds"
  shows "\<exists>out g'. sample pick self g ds = Inr ((out, True), g') \<and>
           filter_mset (\<lambda>d. decision_type d = Accepted) (mset out) =
             filter_mset (\<lambda>d. decision_type d = Accepted) (mset ds) \<and>
           filter_mset (\<lambda>d. decision_type d = Pending) (mset out) =
             filter_mset (\<lambda>d. decision_type d = Pending) (mset ds) \<and>
           (\<forall>r. mset (filter (in_bucket r) out) \<subseteq># mset (filter (in_bucket r) ds) \<and>
                int (length (filter (in_bucket r) out)) =
                  min (int (length (filter (in_bucket r) ds))) (per_reason self)) \<and>
           (\<forall>r. r \<noteq> [] \<and> r \<noteq> ''unknown'' \<longrightarrow>
                int (length (filter (\<lambda>d. decision_type d = Rejected \<and> reason d = Some r) out)) =
                  min (int (length (filter (\<lambda>d. decision_type d = Rejected \<and> reason d = Some r) ds)))
                    (per_reason self)) \<and>
           (\<forall>r. int (length (filter (in_bucket r) ds)) = per_reason self \<longrightarrow>
                mset (filter (in_bucket r) out) = mset (filter (in_bucket r) ds)) \<and>
           ((\<forall>r. int (length (filter (in_bucket r) ds)) \<le> per_reason self) \<longrightarrow> g' = g) \<and>
           (\<forall>r items rest acc. int (length items) = per_reason self \<longrightarrow>
              sample_groups pick (per_reason self) ((r, items) # rest) acc g =
              sample_groups pick (per_reason self) rest (acc @ items) g)"
proof -
  from assms(4) have "sortable ds" by (simp add: sortable_eq)
  from sample_caps_by_bucket [OF assms(1-3) this, of g] obtain out g' where
    c: "sample pick self g ds = Inr ((out, True), g') \<and>
           filter_mset (\<lambda>d. decision_type d = Accepted) (mset out) =
             filter_mset (\<lambda>d. decision_type d = Accepted) (mset ds) \<and>
           filter_mset (\<lambda>d. decision_type d = Pending) (mset out) =
             filter_mset (\<lambda>d. decision_type d = Pending) (mset ds) \<and>
           (\<forall>r. mset (rejected_with r out) \<subseteq># mset (rejected_with r ds) \<and>
                int (length (rejected_with r out)) =
                  min (int (length (rejected_with r ds))) (per_reason self)) \<and>
           (\<forall>r. int (length (rejected_with r ds)) = per_reason self \<longrightarrow>
                mset (rejected_with r out) = mset (rejected_with r ds)) \<and>
           ((\<forall>r. int (length (rejected_with r ds)) \<le> per_reason self) \<longrightarrow> g' = g) \<and>
           (\<forall>r items rest acc. int (length items) = per_reason self \<longrightarrow>
              sample_groups pick (per_reason self) ((r, items) # rest) acc g =
              sample_groups pick (per_reason self) rest (acc @ items) g)"
    by blast
  then have cap: "int (length (filter (in_bucket r) out)) =
      min (int (length (filter (in_bucket r) ds))) (per_reason self)" for r
    by (simp add: filter_in_bucket)
  have "int (length (filter (\<lambda>d. decision_type d = Rejected \<and> reason d = Some r) out)) =
      min (int (length (filter (\<lambda>d. decision_type d = Rejected \<and> reason d = Some r) ds)))
        (per_reason self)"
    if "r \<noteq> [] \<and> r \<noteq> ''unknown''" for r
  proof -
    from that have "filter (in_bucket r) xs =
        filter (\<lambda>d. decision_type d = Rejected \<and> reason d = Some r) xs" for xs
      by (simp add: filter_in_bucket_stated)
    with cap [of r] show ?thesis by simp
  qed
  with c show ?thesis
    by (intro exI [of _ out] exI [of _ g']) (simp add: filter_in_bucket)
qed

theorem sample_keeps_accepted_pending_caps_rejected_witness:
  "chooser_ok (rotate_chooser :: (nat, decision) chooser) \<and>
   threshold demo_sampler < int (length demo_mixed) \<and>
   0 \<le> per_reason demo_sampler \<and>
   comparable_sequences demo_mixed \<and>
   sample rotate_chooser demo_sampler (0::nat) demo_mixed = Inr ((demo_mixed_sampled, True), 1) \<and>
   per_reason demo_sampler = 1 \<and>
   length (filter (\<lambda>d. decision_type d = Rejected \<and> reason d = Some ''price'') demo_mixed) = 2 \<and>
   length (filter (\<lambda>d. decision_type d = Rejected \<and> reason d = Some ''rating'') demo_mixed) = 1 \<and>
   length (filter (\<lambda>d. decision_type d = Rejected \<and> reason d = Some ''price'') demo_mixed_sampled) = 1 \<and>
   length (filter (\<lambda>d. decision_type d = Rejected \<and> reason d = Some ''rating'') demo_mixed_sampled) = 1 \<and>
   length (filter (in_bucket ''unknown'') demo_mixed_sampled) = 1 \<and>
   filter (\<lambda>d. decision_type d = Pending) demo_mixed_sampled =
     filter (\<lambda>d. decision_type d = Pending) demo_mixed \<and>
   filter (\<lambda>d. decision_type d = Accepted) demo_mixed_sampled =
     filter (\<lambda>d. decision_type d = Accepted) demo_mixed"
proof -
  have h1: "chooser_ok (rotate_chooser :: (nat, decision) chooser)" by (rule rotate_chooser_ok)
  have h2: "threshold demo_sampler < int (length demo_mixed)"
    by (simp add: demo_sampler_def demo_mixed_def)
  have h3: "0 \<le> per_reason demo_sampler" by (simp add: demo_sampler_def)
  have h4: "comparable_sequences demo_mixed"
    by (simp add: comparable_sequences_def demo_mixed_def Decision_def metadata_sequence_def)
  have p: "length (filter (\<lambda>d. decision_type d = Rejected \<and> reason d = Some ''price'') demo_mixed) = 2"
    and r: "length (filter (\<lambda>d. decision_type d = Rejected \<and> reason d = Some ''rating'') demo_mixed) = 1"
    by (simp_all add: demo_mixed_def Decision_def)
  have pr: "per_reason demo_sampler = 1" by (simp add: demo_sampler_def)
  from sample_keeps_accepted_pending_caps_rejected [OF h1 h2 h3 h4, of 0] demo_mixed_run
  have caps: "\<forall>r. r \<noteq> [] \<and> r \<noteq> ''unknown'' \<longrightarrow>
      int (length (filter (\<lambda>d. decision_type d = Rejected \<and> reason d = Some r) demo_mixed_sampled)) =
        min (int (length (filter (\<lambda>d. decision_type d = Rejected \<and> reason d = Some r) demo_mixed)))
          (per_reason demo_sampler)"
    by auto
  from caps [rule_format, of "''price''"] p pr
  have c1: "length (filter (\<lambda>d. decision_type d = Rejected \<and> reason d = Some ''price'') demo_mixed_sampled) = 1"
    by simp
  from caps [rule_format, of "''rating''"] r pr
  have c2: "length (filter (\<lambda>d. decision_type d = Rejected \<and> reason d = Some ''rating'') demo_mixed_sampled) = 1"
    by simp
  have rest: "length (filter (in_bucket ''unknown'') demo_mixed_sampled) = 1"
    "filter (\<lambda>d. decision_type d = Pending) demo_mixed_sampled =
     filter (\<lambda>d. decision_type d = Pending) demo_mixed"
    "filter (\<lambda>d. decision_type d = Accepted) demo_mixed_sampled =
     filter (\<lambda>d. decision_type d = Accepted) demo_mixed"
    by (simp_all add: demo_mixed_def demo_mixed_sampled_def Decision_def in_bucket_def)
  from h1 h2 h3 h4 demo_mixed_run pr p r c1 c2 rest show ?thesis by simp
qed

text \<open>
  Claim C1 as stated fails where \<open>sample\<close> does not return: a list over the threshold
  with a string sequence beside an integer one makes the sort raise \<open>TypeError\<close>, and a
  negative \<open>per_reason\<close> makes \<open>random.sample\<close> raise \<open>ValueError\<close>.
\<close>

theorem sample_raises_counterexample:
  "sample rotate_chooser \<lparr>threshold = 1, per_reason = 50\<rparr> (0::nat)
     [Decision ''a'' Accepted None (Some [(''sequence'', PyStr ''first'')]),
      Decision ''b'' Rejected (Some ''price'') (Some [(''sequence'', PyInt 1)])] =
     Inl (TypeError, 0) \<and>
   sample rotate_chooser \<lparr>threshold = 1, per_reason = - 1\<rparr> (0::nat)
     [Decision ''a'' Accepted None None, Decision ''b'' Rejected (Some ''price'') None] =
     Inl (ValueError, 0)"
  by (simp add: run_sample)

section \<open>Order of the output and the random source\<close>


lemma sorted_wrt_distinct_keys:
  "sorted_wrt (\<lambda>a b. py_le (f a) (f b)) xs \<Longrightarrow> distinct (map f xs) \<Longrightarrow>
     sorted_wrt (\<lambda>a b. py_less (f a) (f b)) xs"
proof (induction xs)
  case Nil
  then show ?case by simp
next
  case (Cons x xs)
  have "py_less (f x) (f y)" if "y \<in> set xs" for y
  proof -
    from that Cons.prems have "py_le (f x) (f y)" "f x \<noteq> f y" by auto
    then show ?thesis by (cases "f x"; cases "f y") auto
  qed
  with Cons show ?case by simp
qed

lemma distinct_map_sub_mset:
  assumes "mset ys \<subseteq># mset xs" and "distinct (map f xs)"
  shows "distinct (map f ys)"
proof -
  from assms(1) have "image_mset f (mset ys) \<subseteq># image_mset f (mset xs)"
    by (rule image_mset_subseteq_mono)
  then have sub: "mset (map f ys) \<subseteq># mset (map f xs)" by simp
  have "count (mset (map f ys)) a = (if a \<in> set (map f ys) then 1 else 0)" for a
  proof -
    have "count (mset (map f ys)) a \<le> count (mset (map f xs)) a"
      using sub by (rule mset_subset_eq_count)
    also from assms(2) have "\<dots> = (if a \<in> set (map f xs) then 1 else 0)"
      by (simp only: distinct_count_atmost_1)
    finally have le: "count (mset (map f ys)) a \<le> 1" by (simp split: if_splits)
    have zero: "count (mset (map f ys)) a = 0 \<longleftrightarrow> a \<notin> set (map f ys)"
      by (rule count_mset_0_iff)
    show ?thesis
    proof (cases "a \<in> set (map f ys)")
      case True
      with zero have "count (mset (map f ys)) a \<noteq> 0" by blast
      with le have "count (mset (map f ys)) a = 1" by linarith
      with True show ?thesis by (simp only: if_True)
    next
      case False
      with zero have "count (mset (map f ys)) a = 0" by blast
      with False show ?thesis by (simp only: if_False)
    qed
  qed
  then show ?thesis by (simp only: distinct_count_atmost_1) simp
qed

lemma sample_sorted_by_key:
  assumes "chooser_ok pick"
    and "threshold self < int (length ds)"
    and "sample pick self g ds = Inr ((out, w), g')"
  shows "sorted_wrt (\<lambda>a b. py_le (sequence_key a) (sequence_key b)) out \<and>
         (distinct (map sequence_key ds) \<longrightarrow>
            sorted_wrt (\<lambda>a b. py_less (sequence_key a) (sequence_key b)) out)"
proof -
  from assms(2) have over: "\<not> int (length ds) \<le> threshold self" by simp
  from sample_over_threshold [OF assms(1) over assms(3)] obtain xs where
    "sort_by_sequence xs = Inr out" by blast
  then have le: "sorted_wrt (\<lambda>a b. py_le (sequence_key a) (sequence_key b)) out"
    by (rule sort_by_sequence_sorted)
  have "sorted_wrt (\<lambda>a b. py_less (sequence_key a) (sequence_key b)) out"
    if "distinct (map sequence_key ds)"
    using le distinct_map_sub_mset [OF sample_sub_mset [OF assms(1,3)] that]
    by (rule sorted_wrt_distinct_keys)
  with le show ?thesis by blast
qed

text \<open>
  Claim C5, as amended. A list within the threshold is returned as it came, in whatever
  order that is. When the list is longer than the threshold and the sequences read from
  the decisions' own \<open>metadata["sequence"]\<close> (\<open>0\<close> when absent) are all integers or all
  strings, what \<open>sample\<close> returns is in non-decreasing order of that sequence, and in
  strictly increasing order when the sequences of the input are pairwise distinct.
\<close>

theorem sample_output_sorted_by_sequence:
  "(int (length ds) \<le> threshold self \<longrightarrow> sample pick self g ds = Inr ((ds, False), g)) \<and>
   (chooser_ok pick \<and> threshold self < int (length ds) \<and> comparable_sequences ds \<and>
    sample pick self g ds = Inr ((out, w), g')
      \<longrightarrow> sorted_wrt (\<lambda>a b. py_le (metadata_sequence a) (metadata_sequence b)) out \<and>
          (distinct (map metadata_sequence ds) \<longrightarrow>
             sorted_wrt (\<lambda>a b. py_less (metadata_sequence a) (metadata_sequence b)) out))"
proof (intro conjI impI)
  assume "int (length ds) \<le> threshold self"
  then show "sample pick self g ds = Inr ((ds, False), g)" by (simp add: sample_def)
next
  assume a: "chooser_ok pick \<and> threshold self < int (length ds) \<and> comparable_sequences ds \<and>
    sample pick self g ds = Inr ((out, w), g')"
  have key: "sequence_key = metadata_sequence" by (rule ext) (rule sequence_key_eq)
  from a sample_sorted_by_key [of pick self ds g out w g']
  show "sorted_wrt (\<lambda>a b. py_le (metadata_sequence a) (metadata_sequence b)) out"
    by (simp add: key)
next
  assume a: "chooser_ok pick \<and> threshold self < int (length ds) \<and> comparable_sequences ds \<and>
    sample pick self g ds = Inr ((out, w), g')"
    and d: "distinct (map metadata_sequence ds)"
  have key: "sequence_key = metadata_sequence" by (rule ext) (rule sequence_key_eq)
  from a d sample_sorted_by_key [of pick self ds g out w g']
  show "sorted_wrt (\<lambda>a b. py_less (metadata_sequence a) (metadata_sequence b)) out"
    by (simp add: key)
qed

theorem sample_output_sorted_by_sequence_witness:
  "chooser_ok (rotate_chooser :: (nat, decision) chooser) \<and>
   threshold demo_sampler < int (length demo_mixed) \<and>
   comparable_sequences demo_mixed \<and>
   map metadata_sequence demo_mixed = [PyInt 3, PyInt 1, PyInt 4, PyInt 2, PyInt 0, PyInt 5] \<and>
   distinct (map metadata_sequence demo_mixed) \<and>
   sample rotate_chooser demo_sampler (0::nat) demo_mixed = Inr ((demo_mixed_sampled, True), 1) \<and>
   map metadata_sequence demo_mixed_sampled = [PyInt 0, PyInt 1, PyInt 2, PyInt 3, PyInt 5] \<and>
   sorted_wrt (\<lambda>a b. py_less (metadata_sequence a) (metadata_sequence b)) demo_mixed_sampled \<and>
   int (length demo_mixed_sampled) \<le> threshold \<lparr>threshold = 5, per_reason = 1\<rparr> \<and>
   sample rotate_chooser \<lparr>threshold = 5, per_reason = 1\<rparr> (0::nat) demo_mixed_sampled =
     Inr ((demo_mixed_sampled, False), 0)"
proof -
  have h1: "chooser_ok (rotate_chooser :: (nat, decision) chooser)" by (rule rotate_chooser_ok)
  have h2: "threshold demo_sampler < int (length demo_mixed)"
    by (simp add: demo_sampler_def demo_mixed_def)
  have h3: "comparable_sequences demo_mixed"
    by (simp add: comparable_sequences_def demo_mixed_def Decision_def metadata_sequence_def)
  have k1: "map metadata_sequence demo_mixed = [PyInt 3, PyInt 1, PyInt 4, PyInt 2, PyInt 0, PyInt 5]"
    by (simp add: demo_mixed_def Decision_def metadata_sequence_def)
  then have h4: "distinct (map metadata_sequence demo_mixed)" by simp
  have k2: "map metadata_sequence demo_mixed_sampled = [PyInt 0, PyInt 1, PyInt 2, PyInt 3, PyInt 5]"
    by (simp add: demo_mixed_sampled_def Decision_def metadata_sequence_def)
  from sample_output_sorted_by_sequence
    [of demo_mixed demo_sampler rotate_chooser "0::nat" demo_mixed_sampled True 1]
    h1 h2 h3 h4 demo_mixed_run
  have s: "sorted_wrt (\<lambda>a b. py_less (metadata_sequence a) (metadata_sequence b)) demo_mixed_sampled"
    by blast
  have h5: "int (length demo_mixed_sampled) \<le> threshold \<lparr>threshold = 5, per_reason = 1\<rparr>"
    by (simp add: demo_mixed_sampled_def)
  from sample_output_sorted_by_sequence
    [of demo_mixed_sampled "\<lparr>threshold = 5, per_reason = 1\<rparr>" rotate_chooser "0::nat"] h5
  have n: "sample rotate_chooser \<lparr>threshold = 5, per_reason = 1\<rparr> (0::nat) demo_mixed_sampled =
     Inr ((demo_mixed_sampled, False), 0)" by blast
  from h1 h2 h3 k1 h4 demo_mixed_run k2 s h5 n show ?thesis by blast
qed

text \<open>
  Claim C5 as stated fails twice. A list within the threshold is returned as it came,
  here with sequence 2 before sequence 1. A list over the threshold whose decisions carry
  no sequence is sorted on equal keys, so not strictly.
\<close>

theorem sample_order_counterexample:
  "sample rotate_chooser DecisionSampler (0::nat)
     [Decision ''a'' Accepted None (Some [(''sequence'', PyInt 2)]),
      Decision ''b'' Accepted None (Some [(''sequence'', PyInt 1)])] =
     Inr (([Decision ''a'' Accepted None (Some [(''sequence'', PyInt 2)]),
            Decision ''b'' Accepted None (Some [(''sequence'', PyInt 1)])], False), 0) \<and>
   map metadata_sequence
     [Decision ''a'' Accepted None (Some [(''sequence'', PyInt 2)]),
      Decision ''b'' Accepted None (Some [(''sequence'', PyInt 1)])] = [PyInt 2, PyInt 1] \<and>
   \<not> sorted_wrt (\<lambda>a b. py_less (metadata_sequence a) (metadata_sequence b))
     [Decision ''a'' Accepted None (Some [(''sequence'', PyInt 2)]),
      Decision ''b'' Accepted None (Some [(''sequence'', PyInt 1)])] \<and>
   sample rotate_chooser \<lparr>threshold = 1, per_reason = 50\<rparr> (0::nat)
     [Decision ''a'' Accepted None None, Decision ''b'' Rejected (Some ''price'') None] =
     Inr (([Decision ''a'' Accepted None None, Decision ''b'' Rejected (Some ''price'') None], True), 0) \<and>
   map metadata_sequence
     [Decision ''a'' Accepted None None, Decision ''b'' Rejected (Some ''price'') None] =
     [PyInt 0, PyInt 0] \<and>
   \<not> sorted_wrt (\<lambda>a b. py_less (metadata_sequence a) (metadata_sequence b))
     [Decision ''a'' Accepted None None, Decision ''b'' Rejected (Some ''price'') None]"
  by (simp add: run_sample DecisionSampler_def metadata_sequence_def)

text \<open>
  Claim C9, as amended. \<open>sample\<close> has no seed and no generator of its own: what it draws
  comes from the state of the shared generator at the call, which a draw advances. A
  call that draws nothing (the list is within the threshold, or every reason bucket is
  within \<open>per_reason\<close>) returns the same from every generator state and with every
  chooser, and leaves the state as it found it.
\<close>

theorem sample_generator_untouched_without_draw:
  assumes "int (length ds) \<le> threshold self \<or>
           (\<forall>r. int (length (rejected_with r ds)) \<le> per_reason self)"
  shows "map_sum fst fst (sample pick self g ds) = map_sum fst fst (sample pick2 self g2 ds) \<and>
         (\<forall>res g'. sample pick self g ds = Inr (res, g') \<longrightarrow> g' = g)"
proof (cases "int (length ds) \<le> threshold self")
  case True
  then show ?thesis by (simp add: sample_def)
next
  case False
  with assms have fit: "\<forall>r. int (length (rejected_with r ds)) \<le> per_reason self" by simp
  obtain a b p where part: "partition_decisions ds = (a, b, p)"
    by (cases "partition_decisions ds")
  from partition_groups_tagged [OF part] fit
  have all: "list_all (\<lambda>grp. int (length (snd grp)) \<le> per_reason self) b"
    by (simp add: list_all_iff)
  have "sample_groups pick (per_reason self) b [] g = Inr (concat (map snd b), g)"
    and "sample_groups pick2 (per_reason self) b [] g2 = Inr (concat (map snd b), g2)"
    using sample_groups_no_draw [OF all, of pick "[]" g]
      sample_groups_no_draw [OF all, of pick2 "[]" g2] by simp_all
  with False part show ?thesis
    by (auto simp: sample_def split: sum.splits)
qed

text \<open>
  Claim C9 as stated fails: two calls in a row on the same sampler and the same list,
  the second starting from the generator state the first one left, return different
  lists.
\<close>

theorem sample_shared_generator_counterexample:
  "sample rotate_chooser demo_sampler (0::nat) demo_decisions =
     Inr (([Decision ''c'' Accepted None None, Decision ''a'' Rejected (Some ''price'') None], True), 1) \<and>
   sample rotate_chooser demo_sampler (1::nat) demo_decisions =
     Inr (([Decision ''c'' Accepted None None, Decision ''b'' Rejected (Some ''price'') None], True), 2)"
  by (simp add: run_sample)

theorem sample_generator_untouched_without_draw_witness:
  "(int (length [Decision ''a'' Accepted None None, Decision ''b'' Rejected (Some ''price'') None])
      \<le> threshold \<lparr>threshold = 1, per_reason = 50\<rparr> \<or>
    (\<forall>r. int (length (rejected_with r
        [Decision ''a'' Accepted None None, Decision ''b'' Rejected (Some ''price'') None]))
      \<le> per_reason \<lparr>threshold = 1, per_reason = 50\<rparr>)) \<and>
   map_sum fst fst (sample rotate_chooser \<lparr>threshold = 1, per_reason = 50\<rparr> (0::nat)
      [Decision ''a'' Accepted None None, Decision ''b'' Rejected (Some ''price'') None]) =
   map_sum fst fst (sample rotate_chooser \<lparr>threshold = 1, per_reason = 50\<rparr> (7::nat)
      [Decision ''a'' Accepted None None, Decision ''b'' Rejected (Some ''price'') None])"
proof -
  have h: "int (length [Decision ''a'' Accepted None None, Decision ''b'' Rejected (Some ''price'') None])
      \<le> threshold \<lparr>threshold = 1, per_reason = 50\<rparr> \<or>
    (\<forall>r. int (length (rejected_with r
        [Decision ''a'' Accepted None None, Decision ''b'' Rejected (Some ''price'') None]))
      \<le> per_reason \<lparr>threshold = 1, per_reason = 50\<rparr>)"
    by (simp add: rejected_with_def)
  from sample_generator_untouched_without_draw [OF h, of rotate_chooser "0::nat" rotate_chooser "7::nat"] h
  show ?thesis by blast
qed



section \<open>Properties of recording a step\<close>

lemmas run_record_step =
  record_step_def guardrails_def or_empty_def stats_and_sample_def normalize_def
  normalize_decision_def setdefault_def MAX_DECISIONS_PER_STEP_def MAX_EVIDENCE_PER_STEP_def
  DecisionSampler_def new_decision_row_def new_evidence_row_def insert_decisions_def
  insert_evidence_def compute_stats_def count_reason_def demo_world_def demo_step_def


lemma sample_groups_error:
  "sample_groups pick pr b acc g = Inl (e, g') \<Longrightarrow> e = ValueError"
proof (induction b arbitrary: acc g)
  case Nil
  then show ?case by simp
next
  case (Cons grp b)
  obtain r items where grp: "grp = (r, items)" by (cases grp)
  show ?case
  proof (cases "int (length items) \<le> pr")
    case True
    with Cons.prems grp Cons.IH show ?thesis by simp
  next
    case False
    show ?thesis
    proof (cases "random_sample pick g items pr")
      case (Inl e')
      with False Cons.prems grp show ?thesis
        by (auto simp: random_sample_def split: if_splits)
    next
      case (Inr res)
      obtain drawn g1 where "res = (drawn, g1)" by (cases res)
      with Inr False Cons.prems grp Cons.IH show ?thesis by simp
    qed
  qed
qed

lemma sample_error:
  "sample pick self g ds = Inl (e, g') \<Longrightarrow> e = ValueError \<or> e = TypeError"
  by (auto simp: sample_def sort_by_sequence_def split: if_splits prod.splits sum.splits
      dest: sample_groups_error)

lemma stats_and_sample_error:
  "stats_and_sample pick g si = Inl (e, g') \<Longrightarrow> e = ValueError \<or> e = TypeError"
  by (auto simp: stats_and_sample_def Let_def split: if_splits sum.splits dest: sample_error)

lemma guardrails_eq:
  "guardrails si =
     (if length (or_empty (decisions si)) > MAX_DECISIONS_PER_STEP \<or>
         length (or_empty (evidence si)) > MAX_EVIDENCE_PER_STEP
      then Some (HTTPException 413) else None)"
  by (auto simp: guardrails_def MAX_DECISIONS_PER_STEP_def MAX_EVIDENCE_PER_STEP_def)

lemma insert_evidence_error: "insert_evidence u rows = Inl e \<Longrightarrow> e = IntegrityError"
  by (simp add: insert_evidence_def split: if_splits)

lemma record_step_error_kinds:
  assumes "record_step pick now w rid si = (Inl e, w')"
  shows "db w' = db w \<and>
         (e = HTTPException 413 \<longrightarrow> guardrails si \<noteq> None \<and> w' = w)"
  using assms
  by (auto simp: record_step_def Let_def guardrails_eq
      split: option.splits if_splits sum.splits prod.splits
      dest: stats_and_sample_error insert_evidence_error)


text \<open>
  Claim C7. A submission with more than \<open>MAX_DECISIONS_PER_STEP\<close> decisions or more than
  \<open>MAX_EVIDENCE_PER_STEP\<close> evidence items is answered with status 413 and leaves the
  whole world as it was: the database, the generator (nothing was sampled) and the key
  supply (no row was built). A submission within both limits passes the guardrails, and
  whatever happens to it later is not a 413.
\<close>

theorem guardrail_rejects_before_processing:
  "(length (or_empty (decisions si)) > MAX_DECISIONS_PER_STEP \<or>
    length (or_empty (evidence si)) > MAX_EVIDENCE_PER_STEP
      \<longrightarrow> record_step pick now w rid si = (Inl (HTTPException 413), w)) \<and>
   (length (or_empty (decisions si)) \<le> MAX_DECISIONS_PER_STEP \<and>
    length (or_empty (evidence si)) \<le> MAX_EVIDENCE_PER_STEP
      \<longrightarrow> guardrails si = None \<and> fst (record_step pick now w rid si) \<noteq> Inl (HTTPException 413))"
proof (intro conjI impI)
  assume "length (or_empty (decisions si)) > MAX_DECISIONS_PER_STEP \<or>
    length (or_empty (evidence si)) > MAX_EVIDENCE_PER_STEP"
  then show "record_step pick now w rid si = (Inl (HTTPException 413), w)"
    by (simp add: record_step_def guardrails_eq)
next
  assume le: "length (or_empty (decisions si)) \<le> MAX_DECISIONS_PER_STEP \<and>
    length (or_empty (evidence si)) \<le> MAX_EVIDENCE_PER_STEP"
  then show g: "guardrails si = None" by (simp add: guardrails_eq)
  show "fst (record_step pick now w rid si) \<noteq> Inl (HTTPException 413)"
  proof
    assume "fst (record_step pick now w rid si) = Inl (HTTPException 413)"
    then have "record_step pick now w rid si =
        (Inl (HTTPException 413), snd (record_step pick now w rid si))"
      by (metis prod.collapse)
    from record_step_error_kinds [OF this] g show False by simp
  qed
qed

theorem guardrail_rejects_before_processing_witness:
  "length (or_empty (decisions (demo_step\<lparr>decisions := Some (replicate 100001 (Decision ''a'' Accepted None None))\<rparr>)))
     > MAX_DECISIONS_PER_STEP \<and>
   record_step rotate_chooser 5 demo_world 7
     (demo_step\<lparr>decisions := Some (replicate 100001 (Decision ''a'' Accepted None None))\<rparr>) =
     (Inl (HTTPException 413), demo_world) \<and>
   length (or_empty (decisions (demo_step\<lparr>evidence := None\<rparr>))) \<le> MAX_DECISIONS_PER_STEP \<and>
   length (or_empty (evidence (demo_step\<lparr>evidence := None\<rparr>))) \<le> MAX_EVIDENCE_PER_STEP \<and>
   fst (record_step rotate_chooser 5 demo_world 7 (demo_step\<lparr>evidence := None\<rparr>))
     \<noteq> Inl (HTTPException 413)"
proof -
  have h1: "length (or_empty (decisions (demo_step\<lparr>decisions := Some (replicate 100001 (Decision ''a'' Accepted None None))\<rparr>)))
     > MAX_DECISIONS_PER_STEP"
    by (simp add: or_empty_def MAX_DECISIONS_PER_STEP_def)
  have h2: "length (or_empty (decisions (demo_step\<lparr>evidence := None\<rparr>))) \<le> MAX_DECISIONS_PER_STEP \<and>
    length (or_empty (evidence (demo_step\<lparr>evidence := None\<rparr>))) \<le> MAX_EVIDENCE_PER_STEP"
    by (simp add: or_empty_def demo_step_def MAX_DECISIONS_PER_STEP_def MAX_EVIDENCE_PER_STEP_def)
  from guardrail_rejects_before_processing
    [of "demo_step\<lparr>decisions := Some (replicate 100001 (Decision ''a'' Accepted None None))\<rparr>"
        rotate_chooser 5 demo_world 7] h1
  have c1: "record_step rotate_chooser 5 demo_world 7
     (demo_step\<lparr>decisions := Some (replicate 100001 (Decision ''a'' Accepted None None))\<rparr>) =
     (Inl (HTTPException 413), demo_world)" by blast
  from guardrail_rejects_before_processing
    [of "demo_step\<lparr>evidence := None\<rparr>" rotate_chooser 5 demo_world 7] h2
  have c2: "fst (record_step rotate_chooser 5 demo_world 7 (demo_step\<lparr>evidence := None\<rparr>))
     \<noteq> Inl (HTTPException 413)" by blast
  from h1 h2 c1 c2 show ?thesis by blast
qed

lemma nth_normalize:
  "i < length ds \<Longrightarrow> normalize ds ! i = normalize_decision i (ds ! i)"
  by (simp add: normalize_def nth_enumerate_eq)

lemma sequence_key_normalize_decision:
  "sequence_key (normalize_decision i d) =
     (case map_of (or_empty (metadata d)) ''sequence'' of None \<Rightarrow> PyInt (int i) | Some v \<Rightarrow> v)"
  by (auto simp: sequence_key_def normalize_decision_def setdefault_def split: option.splits)





lemma count_reason_normalize_decision:
  "count_reason acc (normalize_decision i d) = count_reason acc d"
  by (simp add: count_reason_def normalize_decision_def reason_or_unknown_def)

lemma foldl_count_reason_enumerate:
  "foldl count_reason acc (map (\<lambda>(idx, d). normalize_decision idx d) (enumerate n ds)) =
     foldl count_reason acc ds"
  by (induction ds arbitrary: n acc) (simp_all add: count_reason_normalize_decision)

lemma filter_kind_enumerate:
  "length (filter (\<lambda>d. decision_type d = k)
       (map (\<lambda>(idx, d). normalize_decision idx d) (enumerate n ds))) =
     length (filter (\<lambda>d. decision_type d = k) ds)"
  by (induction ds arbitrary: n) (simp_all add: normalize_decision_def)

lemma compute_stats_normalize: "compute_stats (normalize ds) = compute_stats ds"
proof -
  have len: "length (normalize ds) = length ds" by (simp add: normalize_def)
  then have nil: "normalize ds = [] \<longleftrightarrow> ds = []" by (metis length_0_conv)
  have kinds: "length (filter (\<lambda>d. decision_type d = k) (normalize ds)) =
      length (filter (\<lambda>d. decision_type d = k) ds)" for k
    unfolding normalize_def by (rule filter_kind_enumerate)
  have reasons: "foldl count_reason [] (normalize ds) = foldl count_reason [] ds"
    unfolding normalize_def by (rule foldl_count_reason_enumerate)
  show ?thesis
    unfolding compute_stats_def Let_def by (simp only: len nil kinds reasons)
qed

lemma sum_list_update_count:
  "sum_list (map snd (AList.update k (Suc (case map_of al k of None \<Rightarrow> 0 | Some c \<Rightarrow> c)) al)) =
     Suc (sum_list (map snd al))"
  by (induction al) auto

lemma sum_list_count_reason:
  "sum_list (map snd (count_reason acc d)) =
     sum_list (map snd acc) + (if decision_type d = Rejected then 1 else 0)"
  by (simp add: count_reason_def Let_def sum_list_update_count)

lemma sum_list_foldl_count_reason:
  "sum_list (map snd (foldl count_reason acc ds)) =
     sum_list (map snd acc) + length (filter (\<lambda>d. decision_type d = Rejected) ds)"
  by (induction ds arbitrary: acc) (simp_all add: sum_list_count_reason)

lemma length_three_kinds:
  "length (filter (\<lambda>d. decision_type d = Accepted) ds) +
   length (filter (\<lambda>d. decision_type d = Rejected) ds) +
   length (filter (\<lambda>d. decision_type d = Pending) ds) = length ds"
proof (induction ds)
  case Nil
  then show ?case by simp
next
  case (Cons d ds)
  then show ?case by (cases "decision_type d") simp_all
qed

lemma record_step_returns:
  assumes "record_step pick now w rid si = (Inr resp, w')"
  shows "\<exists>sds was g' step.
           stats_and_sample pick (rng w) si = Inr (resp_stats resp, sds, was, g') \<and>
           steps (db w') = steps (db w) @ [step] \<and> step_stats step = resp_stats resp"
  using assms
  by (auto simp: record_step_def Let_def
      split: option.splits if_splits sum.splits prod.splits)

lemma stats_and_sample_stats:
  assumes "stats_and_sample pick g si = Inr (st, sds, was, g')"
    and "or_empty (decisions si) \<noteq> []"
  shows "st = Some (compute_stats (or_empty (decisions si)))"
  using assms
  by (auto simp: stats_and_sample_def Let_def compute_stats_normalize
      split: if_splits sum.splits prod.splits)

text \<open>
  Claim C3. The totals of \<open>compute_stats\<close> add up: accepted (\<open>output_count\<close>) plus
  rejected (also the sum of the counts in \<open>rejection_reasons\<close>) plus pending is
  \<open>input_count\<close>. Sampling does not touch them: \<open>sample\<close> builds a new list and only
  reads its argument, and \<open>record_step\<close> computes the statistics before it samples, so
  what a recorded step stores and answers are the statistics of the whole submitted list
  (normalizing does not change them), whether or not the list was then reduced.
\<close>

theorem compute_stats_totals_and_recorded_before_sampling:
  "output_count (compute_stats ds) +
     length (filter (\<lambda>d. decision_type d = Rejected) ds) +
     length (filter (\<lambda>d. decision_type d = Pending) ds) = input_count (compute_stats ds) \<and>
   sum_list (map snd (rejection_reasons (compute_stats ds))) =
     length (filter (\<lambda>d. decision_type d = Rejected) ds) \<and>
   compute_stats (normalize ds) = compute_stats ds \<and>
   (\<forall>resp w'. record_step pick now w rid si = (Inr resp, w') \<and> or_empty (decisions si) \<noteq> []
      \<longrightarrow> resp_stats resp = Some (compute_stats (or_empty (decisions si))) \<and>
          (\<exists>step. steps (db w') = steps (db w) @ [step] \<and>
             step_stats step = Some (compute_stats (or_empty (decisions si)))))"
proof (intro conjI allI impI)
  show "output_count (compute_stats ds) +
     length (filter (\<lambda>d. decision_type d = Rejected) ds) +
     length (filter (\<lambda>d. decision_type d = Pending) ds) = input_count (compute_stats ds)"
    using length_three_kinds [of ds] by (simp add: compute_stats_def Let_def)
  show "sum_list (map snd (rejection_reasons (compute_stats ds))) =
     length (filter (\<lambda>d. decision_type d = Rejected) ds)"
    by (simp add: compute_stats_def Let_def sum_list_foldl_count_reason)
  show "compute_stats (normalize ds) = compute_stats ds" by (rule compute_stats_normalize)
next
  fix resp w'
  assume a: "record_step pick now w rid si = (Inr resp, w') \<and> or_empty (decisions si) \<noteq> []"
  from record_step_returns [of pick now w rid si resp w'] a obtain sds was g' step where
    ss: "stats_and_sample pick (rng w) si = Inr (resp_stats resp, sds, was, g')" and
    st: "steps (db w') = steps (db w) @ [step]" "step_stats step = resp_stats resp"
    by blast
  from stats_and_sample_stats [OF ss] a
  have eq: "resp_stats resp = Some (compute_stats (or_empty (decisions si)))" by simp
  then show "resp_stats resp = Some (compute_stats (or_empty (decisions si)))" .
  from st eq show "\<exists>step. steps (db w') = steps (db w) @ [step] \<and>
             step_stats step = Some (compute_stats (or_empty (decisions si)))" by auto
qed

lemma insert_evidence_unbound:
  assumes "evs \<noteq> []" and "created \<noteq> []" and "\<forall>r\<in>set created. dec_id r = None"
  shows "insert_evidence u (map (\<lambda>(ev, decision). new_evidence_row now ev decision)
           (zip evs created)) = Inl IntegrityError"
proof -
  from assms(1,2) obtain e es c cs where "evs = e # es" "created = c # cs"
    by (cases evs; cases created) auto
  with assms(3) show ?thesis by (simp add: insert_evidence_def new_evidence_row_def)
qed

lemma insert_evidence_new_rows:
  assumes "evs \<noteq> []" and "ds \<noteq> []"
  shows "insert_evidence u (map (\<lambda>(ev, decision). new_evidence_row now ev decision)
           (zip evs (map (\<lambda>(idx, d). new_decision_row sid now idx d) (enumerate 0 ds)))) =
         Inl IntegrityError"
proof (rule insert_evidence_unbound [OF assms(1)])
  from assms(2) show "map (\<lambda>(idx, d). new_decision_row sid now idx d) (enumerate 0 ds) \<noteq> []"
    by (cases ds) simp_all
  show "\<forall>r\<in>set (map (\<lambda>(idx, d). new_decision_row sid now idx d) (enumerate 0 ds)).
      dec_id r = None"
    by (auto simp: new_decision_row_def)
qed

lemma record_step_with_evidence_fails:
  assumes "or_empty (evidence si) \<noteq> []"
  shows "\<exists>e w'. record_step pick now w rid si = (Inl e, w') \<and> db w' = db w"
proof (cases "fst (record_step pick now w rid si)")
  case (Inl e)
  then have "record_step pick now w rid si = (Inl e, snd (record_step pick now w rid si))"
    by (metis prod.collapse)
  with record_step_error_kinds [OF this] show ?thesis by blast
next
  case (Inr resp)
  then have r: "record_step pick now w rid si = (Inr resp, snd (record_step pick now w rid si))"
    by (metis prod.collapse)
  have nil: "enumerate 0 xs \<noteq> [] \<Longrightarrow> xs \<noteq> []" for xs :: "decision list"
    by (cases xs) simp_all
  have False
    using r assms
    by (auto simp: record_step_def Let_def insert_decisions_def
          insert_evidence_new_rows [OF assms] dest!: nil
        split: option.splits if_splits sum.splits prod.splits)
  then show ?thesis ..
qed


lemma sortable_normalize:
  assumes "\<forall>d\<in>set ds. map_of (or_empty (metadata d)) ''sequence'' = None"
  shows "sortable (normalize ds)"
proof -
  have "is_int (sequence_key (normalize ds ! i))" if "i < length (normalize ds)" for i
  proof -
    from that have i: "i < length ds" by (simp add: normalize_def)
    with assms have "map_of (or_empty (metadata (ds ! i))) ''sequence'' = None" by simp
    with i show ?thesis by (simp add: nth_normalize sequence_key_normalize_decision)
  qed
  then show ?thesis by (simp add: sortable_def list_all_length)
qed

lemma stats_and_sample_returns:
  assumes "chooser_ok pick"
    and "\<forall>d\<in>set (or_empty (decisions si)). map_of (or_empty (metadata d)) ''sequence'' = None"
  shows "\<exists>st sds was g'. stats_and_sample pick g si = Inr (st, sds, was, g') \<and>
           (was \<longleftrightarrow> 500 < length (or_empty (decisions si)))"
proof (cases "or_empty (decisions si) = []")
  case True
  then have "stats_and_sample pick g si = Inr (None, [], False, g) \<and>
      (False \<longleftrightarrow> 500 < length (or_empty (decisions si)))"
    by (simp add: stats_and_sample_def)
  then show ?thesis by blast
next
  case False
  let ?n = "normalize (or_empty (decisions si))"
  have "0 \<le> per_reason DecisionSampler" by (simp add: DecisionSampler_def)
  from sample_returns [OF assms(1) this sortable_normalize [OF assms(2)], of g]
  obtain out was g' where ret: "sample pick DecisionSampler g ?n = Inr ((out, was), g')" by blast
  have len: "length ?n = length (or_empty (decisions si))" by (simp add: normalize_def)
  from ret have "was \<longleftrightarrow> 500 < length (or_empty (decisions si))"
    by (auto simp: sample_def DecisionSampler_def len split: if_splits prod.splits sum.splits)
  with False ret show ?thesis by (simp add: stats_and_sample_def Let_def)
qed

lemma record_step_without_evidence:
  assumes "guardrails si = None"
    and "rid \<in> set (map run_id (runs (db w)))"
    and "stats_and_sample pick (rng w) si = Inr (st, sds, was, g')"
    and "or_empty (evidence si) = []"
  shows "\<exists>resp w'. record_step pick now w rid si = (Inr resp, w') \<and>
           resp_stats resp = st \<and>
           resp_sampling_summary resp =
             (if or_empty (decisions si) \<noteq> []
                then Some \<lparr>total = length (or_empty (decisions si)), kept = length sds,
                           sampled = was\<rparr>
              else None)"
  using assms
  by (simp add: record_step_def Let_def insert_decisions_def insert_evidence_def)

lemma demo_small_run:
  "record_step rotate_chooser 5 demo_world 7 (demo_step\<lparr>evidence := None\<rparr>) =
     (Inr \<lparr>resp_step_id = 100,
           resp_stats = Some \<lparr>input_count = 1, output_count = 1, rejection_rate = 0,
                               rejection_reasons = []\<rparr>,
           resp_sampling_summary = Some \<lparr>total = 1, kept = 1, sampled = False\<rparr>\<rparr>,
      demo_world
        \<lparr>db := (db demo_world)
           \<lparr>steps :=
              [\<lparr>step_id = Some 100, step_run_id = 7, step_name = ''filtering'',
                 step_sequence_order = 0, step_input_data = None, step_output_data = None,
                 step_config = None, step_reasoning = None,
                 step_stats = Some \<lparr>input_count = 1, output_count = 1, rejection_rate = 0,
                                     rejection_reasons = []\<rparr>,
                 step_started_at = 5, step_completed_at = Some 5\<rparr>],
            decision_rows :=
              [\<lparr>dec_id = Some 101, dec_step_id = Some 100, dec_candidate_id = ''a'',
                 dec_decision_type = Accepted, dec_reason = None, dec_score = None,
                 dec_sequence_order = 0, dec_meta_data = Some [(''sequence'', PyInt 0)],
                 dec_created_at = 5\<rparr>]\<rparr>,
         next_uuid := 102\<rparr>)"
  by (simp add: run_record_step sample_def Decision_def enumerate_eq_zip)

lemma demo_big_run:
  "\<exists>resp w'. record_step rotate_chooser 5 demo_world 7 demo_big_step = (Inr resp, w') \<and>
     map_option sampled (resp_sampling_summary resp) = Some True"
proof -
  have g: "guardrails demo_big_step = None"
    by (simp add: guardrails_eq demo_big_step_def or_empty_def MAX_DECISIONS_PER_STEP_def)
  have r: "7 \<in> set (map run_id (runs (db demo_world)))" by (simp add: demo_world_def)
  have e: "or_empty (evidence demo_big_step) = []" by (simp add: demo_big_step_def or_empty_def)
  have m: "\<forall>d\<in>set (or_empty (decisions demo_big_step)).
      map_of (or_empty (metadata d)) ''sequence'' = None"
    by (simp add: demo_big_step_def or_empty_def Decision_def)
  have n: "length (or_empty (decisions demo_big_step)) = 501"
    by (simp add: demo_big_step_def or_empty_def)
  from stats_and_sample_returns [OF rotate_chooser_ok m, of "rng demo_world"] n
  obtain st sds g' where
    "stats_and_sample rotate_chooser (rng demo_world) demo_big_step = Inr (st, sds, True, g')"
    by auto
  from record_step_without_evidence [OF g r this e, of 5] n show ?thesis by auto
qed

theorem compute_stats_totals_and_recorded_before_sampling_witness:
  "record_step rotate_chooser 5 demo_world 7 (demo_step\<lparr>evidence := None\<rparr>) =
     (Inr \<lparr>resp_step_id = 100,
           resp_stats = Some \<lparr>input_count = 1, output_count = 1, rejection_rate = 0,
                               rejection_reasons = []\<rparr>,
           resp_sampling_summary = Some \<lparr>total = 1, kept = 1, sampled = False\<rparr>\<rparr>,
      snd (record_step rotate_chooser 5 demo_world 7 (demo_step\<lparr>evidence := None\<rparr>))) \<and>
   or_empty (decisions (demo_step\<lparr>evidence := None\<rparr>)) \<noteq> [] \<and>
   (\<exists>resp w'. record_step rotate_chooser 5 demo_world 7 demo_big_step = (Inr resp, w') \<and>
      or_empty (decisions demo_big_step) \<noteq> [] \<and>
      map_option sampled (resp_sampling_summary resp) = Some True \<and>
      resp_stats resp = Some (compute_stats (or_empty (decisions demo_big_step))) \<and>
      map_option input_count (resp_stats resp) = Some 501)"
proof -
  have small: "record_step rotate_chooser 5 demo_world 7 (demo_step\<lparr>evidence := None\<rparr>) =
     (Inr \<lparr>resp_step_id = 100,
           resp_stats = Some \<lparr>input_count = 1, output_count = 1, rejection_rate = 0,
                               rejection_reasons = []\<rparr>,
           resp_sampling_summary = Some \<lparr>total = 1, kept = 1, sampled = False\<rparr>\<rparr>,
      snd (record_step rotate_chooser 5 demo_world 7 (demo_step\<lparr>evidence := None\<rparr>)))"
    by (simp add: demo_small_run)
  have ne1: "or_empty (decisions (demo_step\<lparr>evidence := None\<rparr>)) \<noteq> []"
    by (simp add: demo_step_def or_empty_def)
  have ne2: "or_empty (decisions demo_big_step) \<noteq> []"
    and n: "length (or_empty (decisions demo_big_step)) = 501"
    by (simp_all add: demo_big_step_def or_empty_def)
  from demo_big_run obtain resp w' where
    run: "record_step rotate_chooser 5 demo_world 7 demo_big_step = (Inr resp, w')" and
    sam: "map_option sampled (resp_sampling_summary resp) = Some True" by blast
  from compute_stats_totals_and_recorded_before_sampling
    [of "or_empty (decisions demo_big_step)" rotate_chooser 5 demo_world 7 demo_big_step]
    run ne2
  have st: "resp_stats resp = Some (compute_stats (or_empty (decisions demo_big_step)))"
    and cnt: "output_count (compute_stats (or_empty (decisions demo_big_step))) +
       length (filter (\<lambda>d. decision_type d = Rejected) (or_empty (decisions demo_big_step))) +
       length (filter (\<lambda>d. decision_type d = Pending) (or_empty (decisions demo_big_step))) =
       input_count (compute_stats (or_empty (decisions demo_big_step)))"
    by blast+
  have "input_count (compute_stats (or_empty (decisions demo_big_step))) = 501"
    using ne2 n by (simp add: compute_stats_def Let_def)
  with st have "map_option input_count (resp_stats resp) = Some 501" by simp
  with small ne1 run ne2 sam st show ?thesis by blast
qed

text \<open>
  Claim C6 at a submission of one decision with one evidence item: \<open>Evidence\<close> is built
  from \<open>decision.id\<close> while the decision is only added to the session, so the key it
  reads is \<open>None\<close>; the commit refuses the row and nothing of the step is stored.
  The lemma after it gives the outcome of every submission with evidence that reaches
  the binding: status 400 when there is no decision or more evidence than decisions,
  and the refused commit otherwise.
\<close>

theorem record_step_evidence_not_bound:
  "record_step rotate_chooser 5 demo_world 7 demo_step =
     (Inl IntegrityError, demo_world\<lparr>next_uuid := 102\<rparr>)"
  by (simp add: run_record_step sample_def Decision_def enumerate_eq_zip)

lemma record_step_evidence_outcome:
  assumes "or_empty (evidence si) \<noteq> []"
    and "guardrails si = None"
    and "rid \<in> set (map run_id (runs (db w)))"
    and "stats_and_sample pick (rng w) si = Inr (st, sds, was, g')"
  shows "fst (record_step pick now w rid si) =
           Inl (if sds = [] \<or> length sds < length (or_empty (evidence si))
                then HTTPException 400 else IntegrityError) \<and>
         db (snd (record_step pick now w rid si)) = db w"
proof -
  have nil: "or_empty (decisions si) = [] \<Longrightarrow> sds = []"
    using assms(4) by (simp add: stats_and_sample_def)
  show ?thesis
  proof (cases "sds = []")
    case True
    with assms show ?thesis by (simp add: record_step_def Let_def)
  next
    case False
    with nil have ne: "or_empty (decisions si) \<noteq> []" by blast
    from False have e: "enumerate 0 sds \<noteq> []" by (cases sds) simp_all
    show ?thesis
      using assms ne False e
      by (simp add: record_step_def Let_def insert_decisions_def
          insert_evidence_new_rows [OF assms(1) False])
  qed
qed

end
